theory Spec2Isabelle
  imports
    Main
    "HOL-Library.Char_ord"
    "HOL-Library.List_Lexorder"
    "HOL-Library.Product_Lexorder"
    "HOL-Library.Sublist"
    "HOL-Library.Multiset"
begin

section \<open>Common string helpers\<close>

text \<open>
  Python strings are modelled as \<^typ>\<open>string\<close>. The helpers below are the string
  methods the sources call: \<^verbatim>\<open>str.startswith\<close>, \<^verbatim>\<open>str.endswith\<close>,
  \<^verbatim>\<open>str.rstrip("/")\<close>, \<^verbatim>\<open>str.strip()\<close>, \<^verbatim>\<open>str.split()\<close>,
  \<^verbatim>\<open>str.split("\n")\<close> and \<^verbatim>\<open>"sep".join\<close>.
\<close>

definition startswith :: "string \<Rightarrow> string \<Rightarrow> bool" where
  "startswith p s = (take (length p) s = p)"

definition endswith :: "string \<Rightarrow> string \<Rightarrow> bool" where
  "endswith p s = (length p \<le> length s \<and> drop (length s - length p) s = p)"

definition rstrip_slash :: "string \<Rightarrow> string" where
  "rstrip_slash s = rev (dropWhile (\<lambda>c. c = CHR ''/'') (rev s))"

section \<open>Fetching: results and failures\<close>

text \<open>
  \<^verbatim>\<open>FetchResult\<close> of fetch.py. Byte buffers are strings; the header dictionary is an
  association list.
\<close>

record FetchResult =
  fr_html :: string
  fr_url :: string
  fr_status :: int
  fr_screenshot :: "string option"
  fr_pdf :: "string option"
  fr_headers :: "(string \<times> string) list"

text \<open>
  What a call can raise. \<open>ValueError\<close> is what \<^verbatim>\<open>urlparse\<close> and \<^verbatim>\<open>urljoin\<close> raise on
  a malformed URL; \<open>FetchError\<close> stands for any subclass of \<^verbatim>\<open>Exception\<close> raised by
  \<^verbatim>\<open>session.fetch\<close> (navigation error, timeout); \<open>Cancelled\<close> stands for the
  exceptions that derive from \<^verbatim>\<open>BaseException\<close> only (task cancellation, keyboard
  interrupt), which \<^verbatim>\<open>except Exception\<close> does not catch.
\<close>

datatype error = ValueError | FetchError string | Cancelled

fun is_Exception :: "error \<Rightarrow> bool" where
  "is_Exception ValueError = True"
| "is_Exception (FetchError m) = True"
| "is_Exception Cancelled = False"

section \<open>The crawler (crawl.py)\<close>

text \<open>The six components of \<^verbatim>\<open>urllib.parse.ParseResult\<close>.\<close>

record ParseResult =
  u_scheme :: string
  u_netloc :: string
  u_path :: string
  u_params :: string
  u_query :: string
  u_fragment :: string

text \<open>
  The collaborators of the crawler that are not part of the repository are parameters
  of the model: \<^verbatim>\<open>urllib.parse.urlparse\<close> and \<^verbatim>\<open>urljoin\<close> (\<open>None\<close> when they raise
  \<^verbatim>\<open>ValueError\<close>), the list of \<^verbatim>\<open>href\<close> values of
  \<^verbatim>\<open>soup.find_all("a", href=True)\<close> in document order, \<^verbatim>\<open>fnmatch.fnmatch\<close>, and
  \<^verbatim>\<open>session.fetch(url, screenshot, pdf)\<close>, which returns a result or raises.
\<close>

record env =
  urlparse :: "string \<Rightarrow> ParseResult option"
  urljoin :: "string \<Rightarrow> string \<Rightarrow> string option"
  find_all_a_href :: "string \<Rightarrow> string list"
  fnmatch :: "string \<Rightarrow> string \<Rightarrow> bool"
  fetch :: "string \<Rightarrow> bool \<Rightarrow> bool \<Rightarrow> error + FetchResult"

text \<open>\<^verbatim>\<open>_normalize_url\<close>: \<^verbatim>\<open>path = parsed.path.rstrip("/") or "/"\<close>.\<close>

definition normalize_url :: "env \<Rightarrow> string \<Rightarrow> error + string" where
  "normalize_url E url =
     (case urlparse E url of
        None \<Rightarrow> Inl ValueError
      | Some parsed \<Rightarrow>
          (let p = rstrip_slash (u_path parsed);
               path = (if p = [] then ''/'' else p)
           in Inr (u_scheme parsed @ ''://'' @ u_netloc parsed @ path)))"

text \<open>\<^verbatim>\<open>href.startswith(("#", "javascript:", "mailto:", "tel:"))\<close>.\<close>

definition skip_href :: "string \<Rightarrow> bool" where
  "skip_href href =
     (startswith ''#'' href \<or> startswith ''javascript:'' href
      \<or> startswith ''mailto:'' href \<or> startswith ''tel:'' href)"

text \<open>
  \<^verbatim>\<open>re.search(r"\.(jpg|jpeg|png|gif|svg|pdf|zip|tar|gz|css|js|xml)$", path, re.I)\<close>.
  Case is ignored, and \<^verbatim>\<open>$\<close> matches at the end of the string and also just before
  a newline that ends the string.
\<close>

definition skip_exts :: "string list" where
  "skip_exts = [''jpg'', ''jpeg'', ''png'', ''gif'', ''svg'', ''pdf'', ''zip'', ''tar'',
                ''gz'', ''css'', ''js'', ''xml'']"

definition lower_char :: "char \<Rightarrow> char" where
  "lower_char c =
     (if (65::nat) \<le> of_char c \<and> of_char c \<le> (90::nat)
      then char_of (of_char c + (32::nat)) else c)"

definition has_skip_ext :: "string \<Rightarrow> bool" where
  "has_skip_ext path =
     (\<exists>e \<in> set skip_exts.
        endswith (CHR ''.'' # e) (map lower_char path)
        \<or> endswith (CHR ''.'' # e @ [CHR 0x0A]) (map lower_char path))"

text \<open>The first loop of \<^verbatim>\<open>_extract_links\<close>: the anchors that pass every filter.\<close>

fun collect_links :: "env \<Rightarrow> string \<Rightarrow> string \<Rightarrow> string list \<Rightarrow> error + string list" where
  "collect_links E base_url base_domain [] = Inr []"
| "collect_links E base_url base_domain (href # hrefs) =
     (if skip_href href then collect_links E base_url base_domain hrefs
      else case urljoin E base_url href of
        None \<Rightarrow> Inl ValueError
      | Some absolute \<Rightarrow>
          (case urlparse E absolute of
             None \<Rightarrow> Inl ValueError
           | Some parsed \<Rightarrow>
               if u_netloc parsed \<noteq> base_domain then collect_links E base_url base_domain hrefs
               else if u_scheme parsed \<notin> {''http'', ''https''}
                 then collect_links E base_url base_domain hrefs
               else if has_skip_ext (u_path parsed)
                 then collect_links E base_url base_domain hrefs
               else (case collect_links E base_url base_domain hrefs of
                       Inl e \<Rightarrow> Inl e
                     | Inr links \<Rightarrow> Inr (absolute # links))))"

text \<open>
  The second loop of \<^verbatim>\<open>_extract_links\<close>: deduplication on the normalized URL, the
  set \<^verbatim>\<open>seen\<close> threaded through, the list \<^verbatim>\<open>unique\<close> built in order.
\<close>

fun dedup_links :: "env \<Rightarrow> string set \<Rightarrow> string list \<Rightarrow> error + string list" where
  "dedup_links E seen [] = Inr []"
| "dedup_links E seen (link # links) =
     (case normalize_url E link of
        Inl e \<Rightarrow> Inl e
      | Inr normalized \<Rightarrow>
          if normalized \<notin> seen then
            (case dedup_links E (insert normalized seen) links of
               Inl e \<Rightarrow> Inl e
             | Inr unique \<Rightarrow> Inr (link # unique))
          else dedup_links E seen links)"

definition extract_links :: "env \<Rightarrow> string \<Rightarrow> string \<Rightarrow> string \<Rightarrow> error + string list" where
  "extract_links E html base_url base_domain =
     (case collect_links E base_url base_domain (find_all_a_href E html) of
        Inl e \<Rightarrow> Inl e
      | Inr links \<Rightarrow> dedup_links E {} links)"

text \<open>
  The state of \<^verbatim>\<open>deep_crawl\<close>: the list \<^verbatim>\<open>results\<close> and the set \<^verbatim>\<open>visited\<close>. The
  field \<open>fetch_log\<close> is not a variable of the source: it records, in order, the
  argument of every call of \<^verbatim>\<open>session.fetch\<close>, so that "this URL is never fetched" can
  be stated.
\<close>

record crawl_state =
  results :: "FetchResult list"
  visited :: "string set"
  fetch_log :: "string list"

text \<open>
  The loop \<^verbatim>\<open>for url in discovered\<close>. \<^verbatim>\<open>break\<close> returns the state, \<^verbatim>\<open>continue\<close>
  goes on with the rest of the list, and only a failure that \<^verbatim>\<open>except Exception\<close>
  catches is swallowed.
\<close>

fun crawl_loop ::
  "env \<Rightarrow> int \<Rightarrow> bool \<Rightarrow> bool \<Rightarrow> string list \<Rightarrow> crawl_state \<Rightarrow> error + crawl_state" where
  "crawl_loop E max_pages screenshot pdf [] st = Inr st"
| "crawl_loop E max_pages screenshot pdf (url # urls) st =
     (if int (length (results st)) \<ge> max_pages then Inr st
      else case normalize_url E url of
        Inl e \<Rightarrow> Inl e
      | Inr normalized \<Rightarrow>
          if normalized \<in> visited st then crawl_loop E max_pages screenshot pdf urls st
          else
            (let st1 = st\<lparr>visited := insert normalized (visited st),
                          fetch_log := fetch_log st @ [url]\<rparr>
             in case fetch E url screenshot pdf of
                  Inr result \<Rightarrow>
                    if fr_status result < 400
                    then crawl_loop E max_pages screenshot pdf urls
                           (st1\<lparr>results := results st1 @ [result]\<rparr>)
                    else crawl_loop E max_pages screenshot pdf urls st1
                | Inl e \<Rightarrow>
                    if is_Exception e
                    then crawl_loop E max_pages screenshot pdf urls st1
                    else Inl e))"

text \<open>\<^verbatim>\<open>if url_pattern: discovered = [u for u in discovered if fnmatch(u, url_pattern)]\<close>.\<close>

definition filter_pattern :: "env \<Rightarrow> string option \<Rightarrow> string list \<Rightarrow> string list" where
  "filter_pattern E url_pattern discovered =
     (case url_pattern of
        None \<Rightarrow> discovered
      | Some pat \<Rightarrow> if pat = [] then discovered
                   else filter (\<lambda>u. fnmatch E u pat) discovered)"

text \<open>
  \<^verbatim>\<open>deep_crawl\<close>, up to its \<^verbatim>\<open>return\<close>, with the final state; \<open>deep_crawl\<close> below
  returns the list \<^verbatim>\<open>results\<close> of that state.
\<close>

definition deep_crawl_state ::
  "env \<Rightarrow> string \<Rightarrow> int \<Rightarrow> string option \<Rightarrow> bool \<Rightarrow> bool \<Rightarrow> error + crawl_state" where
  "deep_crawl_state E start_url max_pages url_pattern screenshot pdf =
     (case urlparse E start_url of
        None \<Rightarrow> Inl ValueError
      | Some parsed_start \<Rightarrow>
          (case fetch E start_url screenshot pdf of
             Inl e \<Rightarrow> Inl e
           | Inr start_result \<Rightarrow>
               (case normalize_url E start_url of
                  Inl e \<Rightarrow> Inl e
                | Inr n0 \<Rightarrow>
                    (case extract_links E (fr_html start_result) start_url
                            (u_netloc parsed_start) of
                       Inl e \<Rightarrow> Inl e
                     | Inr discovered \<Rightarrow>
                         crawl_loop E max_pages screenshot pdf
                           (filter_pattern E url_pattern discovered)
                           \<lparr>results = [start_result], visited = {n0},
                            fetch_log = [start_url]\<rparr>))))"

definition deep_crawl ::
  "env \<Rightarrow> string \<Rightarrow> int \<Rightarrow> string option \<Rightarrow> bool \<Rightarrow> bool \<Rightarrow> error + FetchResult list" where
  "deep_crawl E start_url max_pages url_pattern screenshot pdf =
     (case deep_crawl_state E start_url max_pages url_pattern screenshot pdf of
        Inl e \<Rightarrow> Inl e
      | Inr st \<Rightarrow> Inr (results st))"

section \<open>Sorting results by date (extract.py)\<close>

text \<open>
  The dictionaries that \<^verbatim>\<open>sort_results_by_date\<close> receives. \<^verbatim>\<open>item.get("published_date")\<close>
  is \<open>None\<close> when the date is missing, \<^verbatim>\<open>item.get("url", "")\<close> is the empty string
  when the key is absent.
\<close>

record 'r item =
  published_date :: "string option"
  item_url :: "string option"
  item_result :: 'r

definition get_sort_key :: "bool \<Rightarrow> 'r item \<Rightarrow> string \<times> string" where
  "get_sort_key descending it =
     (let u = (case item_url it of None \<Rightarrow> [] | Some v \<Rightarrow> v)
      in case published_date it of
           None \<Rightarrow> (if descending then ''9999-99-99'' else ''0000-00-00'', u)
         | Some date \<Rightarrow> (date, u))"

text \<open>
  Python's \<^verbatim>\<open>sorted(xs, key=f, reverse=r)\<close>: a stable sort; with \<^verbatim>\<open>reverse=True\<close> the
  list is reversed, sorted stably in ascending order and reversed again, so that elements
  with equal keys keep their original order. Strings and tuples compare
  lexicographically.
\<close>

definition py_sorted :: "('a \<Rightarrow> 'k::linorder) \<Rightarrow> bool \<Rightarrow> 'a list \<Rightarrow> 'a list" where
  "py_sorted key reverse xs =
     (if reverse then rev (sort_key key (rev xs)) else sort_key key xs)"

definition sort_results_by_date :: "'r item list \<Rightarrow> bool \<Rightarrow> 'r item list" where
  "sort_results_by_date rs descending = py_sorted (get_sort_key descending) descending rs"

section \<open>Whitespace, lines and words\<close>

text \<open>
  The characters for which \<^verbatim>\<open>str.isspace\<close> holds (and that \<^verbatim>\<open>\s\<close> matches), among
  the code points below 256.
\<close>

definition is_space :: "char \<Rightarrow> bool" where
  "is_space c = ((of_char c :: nat) \<in> {9, 10, 11, 12, 13, 28, 29, 30, 31, 32, 133, 160})"

definition strip :: "string \<Rightarrow> string" where
  "strip s = rev (dropWhile is_space (rev (dropWhile is_space s)))"

text \<open>\<^verbatim>\<open>s.split()\<close>: the maximal runs of characters that are not whitespace.\<close>

fun words_acc :: "string \<Rightarrow> string \<Rightarrow> string list" where
  "words_acc cur [] = (if cur = [] then [] else [cur])"
| "words_acc cur (c # cs) =
     (if is_space c then (if cur = [] then words_acc [] cs else cur # words_acc [] cs)
      else words_acc (cur @ [c]) cs)"

definition split_ws :: "string \<Rightarrow> string list" where
  "split_ws s = words_acc [] s"

text \<open>\<^verbatim>\<open>s.split("\n")\<close> and \<^verbatim>\<open>sep.join(xs)\<close>.\<close>

fun split_nl :: "string \<Rightarrow> string list" where
  "split_nl [] = [[]]"
| "split_nl (c # cs) =
     (if c = CHR 0x0A then [] # split_nl cs
      else (case split_nl cs of [] \<Rightarrow> [[c]] | l # ls \<Rightarrow> (c # l) # ls))"

fun join :: "string \<Rightarrow> string list \<Rightarrow> string" where
  "join sep [] = []"
| "join sep [x] = x"
| "join sep (x # y # ys) = x @ sep @ join sep (y # ys)"

section \<open>Heading repair (postprocess)\<close>

text \<open>
  \<^verbatim>\<open>re.match(r"^(#{1,6})\s*$", line)\<close>: one to six \<^verbatim>\<open>#\<close>, then whitespace only. The
  value is group 1, the run of \<^verbatim>\<open>#\<close>.
\<close>

definition heading_match :: "string \<Rightarrow> string option" where
  "heading_match line =
     (let level = takeWhile (\<lambda>c. c = CHR ''#'') line;
          rest = dropWhile (\<lambda>c. c = CHR ''#'') line
      in if 1 \<le> length level \<and> length level \<le> 6 \<and> list_all is_space rest
         then Some level else None)"

text \<open>The condition under which the inner \<^verbatim>\<open>while\<close> loop breaks, on the stripped line.\<close>

definition stops_heading :: "string \<Rightarrow> bool" where
  "stops_heading next_line =
     (next_line = []
      \<or> startswith ''#'' next_line
      \<or> startswith ''-'' next_line
      \<or> startswith ''*'' next_line
      \<or> startswith ''['' next_line
      \<or> startswith ''|'' next_line
      \<or> startswith ''>'' next_line
      \<or> startswith ''```'' next_line
      \<or> length (split_ws next_line) > 3)"

text \<open>
  The inner loop: from line \<open>j\<close> on, the fragments collected and the lines left
  (\<^verbatim>\<open>lines[j:]\<close> when the loop ends).
\<close>

fun take_fragments :: "string list \<Rightarrow> string list \<times> string list" where
  "take_fragments [] = ([], [])"
| "take_fragments (l # ls) =
     (let next_line = strip l
      in if stops_heading next_line then ([], l # ls)
         else (case take_fragments ls of (fragments, rest) \<Rightarrow> (next_line # fragments, rest)))"

lemma take_fragments_length: "length (snd (take_fragments ls)) \<le> length ls"
  by (induction ls) (auto simp: Let_def split: prod.splits)

text \<open>The outer loop of \<^verbatim>\<open>fix_heading_linebreaks\<close>, on \<^verbatim>\<open>lines[i:]\<close>.\<close>

function fix_lines :: "string list \<Rightarrow> string list" where
  "fix_lines [] = []"
| "fix_lines (line # rest) =
     (case heading_match line of
        Some level \<Rightarrow>
          (if fst (take_fragments rest) \<noteq> []
           then (level @ '' '' @ join '' '' (fst (take_fragments rest)))
                  # fix_lines (snd (take_fragments rest))
           else line # fix_lines rest)
      | None \<Rightarrow> line # fix_lines rest)"
  by pat_completeness auto
termination
proof (relation "measure length")
  show "wf (measure length)" by simp
next
  fix line :: string and rest :: "string list" and level :: string
  show "(snd (take_fragments rest), line # rest) \<in> measure length"
    using take_fragments_length [of rest] by simp
qed simp_all

definition fix_heading_linebreaks :: "string \<Rightarrow> string" where
  "fix_heading_linebreaks markdown = join [CHR 0x0A] (fix_lines (split_nl markdown))"

section \<open>Citations (citations.py)\<close>

text \<open>
  The pattern \<^verbatim>\<open>(?<!!)\[([^\]]*)\]\(([^)]+)\)\<close>, tried right after a \<^verbatim>\<open>[\<close>: group 1
  runs to the first \<^verbatim>\<open>]\<close>, which \<^verbatim>\<open>(\<close> must follow; group 2 runs to the first
  \<^verbatim>\<open>)\<close> and is not empty. Both character classes exclude a single character, so the
  match at a position is unique. The value is (group 1, group 2, text after the match).
\<close>

definition match_link :: "string \<Rightarrow> (string \<times> string \<times> string) option" where
  "match_link cs =
     (let text = takeWhile (\<lambda>c. c \<noteq> CHR '']'') cs;
          r1 = dropWhile (\<lambda>c. c \<noteq> CHR '']'') cs
      in if take 2 r1 = ''](''
         then (let r2 = drop 2 r1;
                   url = takeWhile (\<lambda>c. c \<noteq> CHR '')'') r2;
                   r3 = dropWhile (\<lambda>c. c \<noteq> CHR '')'') r2
               in if url \<noteq> [] \<and> r3 \<noteq> [] then Some (text, url, tl r3) else None)
         else None)"

lemma match_link_shorter: "match_link cs = Some (text, url, rest) \<Longrightarrow> length rest < Suc (length cs)"
proof -
  assume m: "match_link cs = Some (text, url, rest)"
  let ?r1 = "dropWhile (\<lambda>c. c \<noteq> CHR '']'') cs"
  let ?r3 = "dropWhile (\<lambda>c. c \<noteq> CHR '')'') (drop 2 ?r1)"
  from m have "rest = tl ?r3"
    by (auto simp: match_link_def Let_def split: if_splits)
  moreover have "length ?r3 \<le> length (drop 2 ?r1)" by (rule length_dropWhile_le)
  moreover have "length ?r1 \<le> length cs" by (rule length_dropWhile_le)
  ultimately show ?thesis by simp
qed

text \<open>
  What \<^verbatim>\<open>re.sub\<close> scans: the matches from left to right, without overlap, and the
  characters between them. \<open>prev\<close> is the character before the position, which the
  lookbehind \<^verbatim>\<open>(?<!!)\<close> reads; after a match it is the closing parenthesis.
\<close>

datatype token = Lit char | Link string string

function find_links :: "char option \<Rightarrow> string \<Rightarrow> token list" where
  "find_links prev [] = []"
| "find_links prev (c # cs) =
     (if c = CHR ''['' \<and> prev \<noteq> Some (CHR ''!'')
      then (case match_link cs of
              Some (text, url, rest) \<Rightarrow> Link text url # find_links (Some (CHR '')'')) rest
            | None \<Rightarrow> Lit c # find_links (Some c) cs)
      else Lit c # find_links (Some c) cs)"
  by pat_completeness auto
termination
  by (relation "measure (\<lambda>(prev, s). length s)") (auto dest: match_link_shorter)

text \<open>Decimal digits of a number, as \<^verbatim>\<open>f"{ref_num}"\<close> prints it.\<close>

fun str_nat :: "nat \<Rightarrow> string" where
  "str_nat n =
     (if n < 10 then [char_of (48 + n)]
      else str_nat (n div 10) @ [char_of (48 + n mod 10)])"

declare str_nat.simps [simp del]

text \<open>
  The variables the closure \<^verbatim>\<open>replace_link\<close> shares with \<^verbatim>\<open>add_citations\<close>: the
  dictionary \<^verbatim>\<open>urls\<close>, in insertion order, and \<^verbatim>\<open>counter\<close>.
\<close>

record cite_state =
  urls :: "(string \<times> nat) list"
  counter :: nat

text \<open>
  \<^verbatim>\<open>replace_link\<close> on one piece of the scan. A character outside a match is copied. A
  fragment link returns \<^verbatim>\<open>match.group(0)\<close>. Otherwise the URL is numbered if it is new,
  and \<^verbatim>\<open>ref_num = urls[url]\<close>; the key is in the dictionary at that point, so the
  lookup has a value (the branch \<open>None\<close> is never taken).
\<close>

fun replace_link :: "token \<Rightarrow> cite_state \<Rightarrow> string \<times> cite_state" where
  "replace_link (Lit c) st = ([c], st)"
| "replace_link (Link text url) st =
     (if startswith ''#'' url then (''['' @ text @ '']('' @ url @ '')'', st)
      else
        (let st' = (if map_of (urls st) url = None
                    then \<lparr>urls = urls st @ [(url, counter st + 1)], counter = counter st + 1\<rparr>
                    else st);
             ref_num = (case map_of (urls st') url of Some n \<Rightarrow> n | None \<Rightarrow> 0)
         in if strip text \<noteq> []
            then (text @ '' ['' @ str_nat ref_num @ '']'', st')
            else (''['' @ str_nat ref_num @ '']'', st')))"

fun sub_links :: "token list \<Rightarrow> cite_state \<Rightarrow> string \<times> cite_state" where
  "sub_links [] st = ([], st)"
| "sub_links (t # ts) st =
     (case replace_link t st of
        (s, st1) \<Rightarrow> (case sub_links ts st1 of (r, st2) \<Rightarrow> (s @ r, st2)))"

definition reference_line :: "string \<times> nat \<Rightarrow> string" where
  "reference_line p = ''['' @ str_nat (snd p) @ ''] '' @ fst p"

definition add_citations :: "string \<Rightarrow> string \<times> string" where
  "add_citations markdown =
     (if markdown = [] then ([], [])
      else (case sub_links (find_links None markdown) \<lparr>urls = [], counter = 0\<rparr> of
              (cited, st) \<Rightarrow>
                if urls st = [] then (markdown, [])
                else (cited,
                      join [CHR 0x0A]
                        ([[], ''## References'', []]
                         @ map reference_line (sort_key snd (urls st))))))"

text \<open>
  Notions of the specification of the citation engine, for stating what the code does:
  the targets of the matches that get a number, in the order they occur (a \<^verbatim>\<open>[\<close> that
  directly follows \<^verbatim>\<open>!\<close> starts no match, and a fragment link is left alone); the distinct elements of a list
  in the order they are first seen; and the numbering of a list from 1.
\<close>

definition cited_urls :: "token list \<Rightarrow> string list" where
  "cited_urls toks =
     concat (map (\<lambda>t. case t of
                         Lit c \<Rightarrow> []
                       | Link text url \<Rightarrow> if startswith ''#'' url then [] else [url]) toks)"

definition first_seen :: "'a list \<Rightarrow> 'a list" where
  "first_seen xs = rev (remdups (rev xs))"

definition numbered :: "'a list \<Rightarrow> ('a \<times> nat) list" where
  "numbered ks = zip ks (map Suc [0..<length ks])"

text \<open>
  Where the text that a pass returns can hold a link that its input did not have. A
  \<^emph>\<open>numbered\<close> link is a match with a target that is not a fragment; its replacement
  ends with the marker, so with \<^verbatim>\<open>]\<close>, and begins with the link text. \<open>source\<close> is the
  text of the input that a piece of the scan stands for, and \<open>paren_group\<close> holds of a
  text that begins with what the pattern asks for after \<^verbatim>\<open>[text]\<close>: an opening
  parenthesis, one or more characters other than \<^verbatim>\<open>)\<close>, and \<^verbatim>\<open>)\<close>. A piece \<open>a\<close> and
  the pieces \<open>ts\<close> after it join into a link when \<open>a\<close> is a numbered link and the input
  goes on with such a group, as in \<^verbatim>\<open>[a](b)(c)\<close>, or when the piece after \<open>a\<close> is a
  numbered link whose text begins with \<^verbatim>\<open>(\<close> and \<open>a\<close> is a numbered link or a \<^verbatim>\<open>]\<close>
  outside a match. \<open>no_joined_pieces\<close> holds of a scan in which no pieces join.
\<close>

fun is_cited :: "token \<Rightarrow> bool" where
  "is_cited (Lit c) = False"
| "is_cited (Link vt url) = (\<not> startswith ''#'' url)"

fun paren_text :: "token \<Rightarrow> bool" where
  "paren_text (Lit c) = False"
| "paren_text (Link vt url) = (\<not> startswith ''#'' url \<and> startswith ''('' vt)"

fun source :: "token \<Rightarrow> string" where
  "source (Lit c) = [c]"
| "source (Link vt url) = ''['' @ vt @ '']('' @ url @ '')''"

definition paren_group :: "string \<Rightarrow> bool" where
  "paren_group s =
     (take 1 s = ''(''
      \<and> takeWhile (\<lambda>c. c \<noteq> CHR '')'') (drop 1 s) \<noteq> []
      \<and> dropWhile (\<lambda>c. c \<noteq> CHR '')'') (drop 1 s) \<noteq> [])"

definition joins :: "token \<Rightarrow> token list \<Rightarrow> bool" where
  "joins a ts =
     ((is_cited a \<and> paren_group (concat (map source ts)))
      \<or> ((is_cited a \<or> a = Lit (CHR '']'')) \<and> ts \<noteq> [] \<and> paren_text (hd ts)))"

fun no_joined_pieces :: "token list \<Rightarrow> bool" where
  "no_joined_pieces [] = True"
| "no_joined_pieces (a # ts) = (\<not> joins a ts \<and> no_joined_pieces ts)"

section \<open>The browser session (fetch.py)\<close>

text \<open>
  The three handles of \<^verbatim>\<open>BrowserSession\<close> (a handle that is not \<^verbatim>\<open>None\<close> is
  \<open>True\<close>), and the trace of what was acquired and released.
\<close>

datatype resource = Playwright | Browser | Context

datatype event = Acquire resource | Release resource

record session =
  s_playwright :: bool
  s_browser :: bool
  s_context :: bool
  trace :: "event list"

text \<open>
  The rendering engine is a parameter: which of its calls raise.
\<close>

record engine =
  start_fails :: bool
  launch_fails :: bool
  new_context_fails :: bool
  context_close_fails :: bool
  browser_close_fails :: bool
  stop_fails :: bool

datatype session_error =
  StartFailed | LaunchFailed | ContextFailed | CloseFailed resource | BodyFailed

definition new_session :: session where
  "new_session = \<lparr>s_playwright = False, s_browser = False, s_context = False, trace = []\<rparr>"

text \<open>
  \<^verbatim>\<open>__aenter__\<close>: three calls in a row and no handler; the first that raises ends the
  method, with the fields assigned so far.
\<close>

definition aenter :: "engine \<Rightarrow> session \<Rightarrow> session_error option \<times> session" where
  "aenter G s =
     (if start_fails G then (Some StartFailed, s)
      else
        (let s1 = s\<lparr>s_playwright := True, trace := trace s @ [Acquire Playwright]\<rparr>
         in if launch_fails G then (Some LaunchFailed, s1)
            else
              (let s2 = s1\<lparr>s_browser := True, trace := trace s1 @ [Acquire Browser]\<rparr>
               in if new_context_fails G then (Some ContextFailed, s2)
                  else (None, s2\<lparr>s_context := True,
                                 trace := trace s2 @ [Acquire Context]\<rparr>))))"

text \<open>\<^verbatim>\<open>__aexit__\<close>: each handle that is set is closed, context, browser, playwright.\<close>

definition aexit :: "engine \<Rightarrow> session \<Rightarrow> session_error option \<times> session" where
  "aexit G s =
     (if s_context s \<and> context_close_fails G then (Some (CloseFailed Context), s)
      else
        (let s1 = (if s_context s then s\<lparr>trace := trace s @ [Release Context]\<rparr> else s)
         in if s_browser s1 \<and> browser_close_fails G then (Some (CloseFailed Browser), s1)
            else
              (let s2 = (if s_browser s1 then s1\<lparr>trace := trace s1 @ [Release Browser]\<rparr>
                         else s1)
               in if s_playwright s2 \<and> stop_fails G then (Some (CloseFailed Playwright), s2)
                  else (None, if s_playwright s2
                              then s2\<lparr>trace := trace s2 @ [Release Playwright]\<rparr>
                              else s2))))"

text \<open>
  \<^verbatim>\<open>async with BrowserSession(...) as session: body\<close>, as the callers in cli.py write it.
  Python calls \<^verbatim>\<open>__aexit__\<close> only when \<^verbatim>\<open>__aenter__\<close> has returned; an exception of
  \<^verbatim>\<open>__aenter__\<close> leaves the statement at once. \<^verbatim>\<open>__aexit__\<close> returns \<^verbatim>\<open>None\<close>, so a
  failure of the body is raised again after it. \<open>body_fails\<close> says whether the body
  raises.
\<close>

definition with_session :: "engine \<Rightarrow> bool \<Rightarrow> session_error option \<times> session" where
  "with_session G body_fails =
     (case aenter G new_session of
        (Some e, s) \<Rightarrow> (Some e, s)
      | (None, s) \<Rightarrow>
          (case aexit G s of
             (Some e, s') \<Rightarrow> (Some e, s')
           | (None, s') \<Rightarrow> (if body_fails then Some BodyFailed else None, s')))"

text \<open>The resources acquired and not released, in a trace.\<close>

definition leaked :: "event list \<Rightarrow> resource list" where
  "leaked tr = filter (\<lambda>r. Acquire r \<in> set tr \<and> Release r \<notin> set tr) [Playwright, Browser, Context]"

section \<open>A concrete site, for evaluating the crawler\<close>

text \<open>
  A seed page \<^verbatim>\<open>https://ex.com/\<close> that answers with status 500 and has nine anchors.
  \<open>demo_urlparse\<close> and \<open>demo_urljoin\<close> list the values of \<^verbatim>\<open>urlparse\<close> and
  \<^verbatim>\<open>urljoin\<close> on the URLs of this site. Page \<^verbatim>\<open>/a\<close> and page \<^verbatim>\<open>/d\<close> answer 200, the
  fetch of \<^verbatim>\<open>/b\<close> times out, page \<^verbatim>\<open>/c\<close> answers 404.
\<close>

definition url_parts :: "string \<Rightarrow> string \<Rightarrow> string \<Rightarrow> string \<Rightarrow> ParseResult" where
  "url_parts s n p q =
     \<lparr>u_scheme = s, u_netloc = n, u_path = p, u_params = [], u_query = q, u_fragment = []\<rparr>"

definition demo_urlparse :: "string \<Rightarrow> ParseResult option" where
  "demo_urlparse = map_of
     [(''https://ex.com/'', url_parts ''https'' ''ex.com'' ''/'' []),
      (''https://ex.com/a'', url_parts ''https'' ''ex.com'' ''/a'' []),
      (''https://ex.com/a?x=1'', url_parts ''https'' ''ex.com'' ''/a'' ''x=1''),
      (''https://other.com/z'', url_parts ''https'' ''other.com'' ''/z'' []),
      (''https://ex.com/img.PNG'', url_parts ''https'' ''ex.com'' ''/img.PNG'' []),
      (''https://ex.com/b'', url_parts ''https'' ''ex.com'' ''/b'' []),
      (''https://ex.com/c'', url_parts ''https'' ''ex.com'' ''/c'' []),
      (''https://ex.com/d'', url_parts ''https'' ''ex.com'' ''/d'' []),
      (''https://ex.com/a/'', url_parts ''https'' ''ex.com'' ''/a/'' []),
      (''https://ex.com/a//?x=1'', url_parts ''https'' ''ex.com'' ''/a//'' ''x=1''),
      (''https://ex.com/a//#top'', url_parts ''https'' ''ex.com'' ''/a//'' []),
      (''https://ex.com'', url_parts ''https'' ''ex.com'' [] []),
      (''https://ex.com?x=1'', url_parts ''https'' ''ex.com'' [] ''x=1''),
      (''https://ex.com/?x=1'', url_parts ''https'' ''ex.com'' ''/'' ''x=1'')]"

definition demo_urljoin :: "string \<Rightarrow> string \<Rightarrow> string option" where
  "demo_urljoin base href =
     (if base = ''https://ex.com/''
      then map_of
        [(''/a'', ''https://ex.com/a''),
         (''/a?x=1'', ''https://ex.com/a?x=1''),
         (''https://other.com/z'', ''https://other.com/z''),
         (''/img.PNG'', ''https://ex.com/img.PNG''),
         (''/b'', ''https://ex.com/b''),
         (''/c'', ''https://ex.com/c''),
         (''/d'', ''https://ex.com/d'')] href
      else None)"

definition demo_hrefs :: "string list" where
  "demo_hrefs = [''#top'', ''mailto:me@ex.com'', ''/a'', ''/a?x=1'', ''https://other.com/z'',
                 ''/img.PNG'', ''/b'', ''/c'', ''/d'']"

definition page :: "string \<Rightarrow> string \<Rightarrow> int \<Rightarrow> FetchResult" where
  "page h u st =
     \<lparr>fr_html = h, fr_url = u, fr_status = st, fr_screenshot = None, fr_pdf = None,
      fr_headers = []\<rparr>"

definition demo_fetch :: "string \<Rightarrow> bool \<Rightarrow> bool \<Rightarrow> error + FetchResult" where
  "demo_fetch u screenshot pdf =
     (if u = ''https://ex.com/'' then Inr (page ''SEED'' u 500)
      else if u = ''https://ex.com/a'' then Inr (page ''A'' u 200)
      else if u = ''https://ex.com/c'' then Inr (page ''C'' u 404)
      else if u = ''https://ex.com/d'' then Inr (page ''D'' u 200)
      else Inl (FetchError ''timeout''))"

definition demo_env :: env where
  "demo_env =
     \<lparr>urlparse = demo_urlparse, urljoin = demo_urljoin,
      find_all_a_href = (\<lambda>h. if h = ''SEED'' then demo_hrefs else []),
      fnmatch = (\<lambda>u pat. pat = ''*''),
      fetch = demo_fetch\<rparr>"

text \<open>The same site when it is down: every fetch raises.\<close>

definition down_env :: env where
  "down_env = demo_env\<lparr>fetch := (\<lambda>u screenshot pdf. Inl (FetchError ''refused''))\<rparr>"

text \<open>The same site when only the seed answers: every other fetch times out.\<close>

definition flaky_env :: env where
  "flaky_env =
     demo_env\<lparr>fetch := (\<lambda>u screenshot pdf.
        if u = ''https://ex.com/'' then Inr (page ''SEED'' u 200)
        else Inl (FetchError ''timeout''))\<rparr>"

text \<open>The state of the crawl right after the seed was fetched.\<close>

definition demo_state :: crawl_state where
  "demo_state =
     \<lparr>results = [page ''SEED'' ''https://ex.com/'' 500], visited = {''https://ex.com/''},
      fetch_log = [''https://ex.com/'']\<rparr>"

text \<open>Engines for evaluating the session: one whose browser does not launch, one whose
  context does not open, and one where every call succeeds.\<close>

definition good_engine :: engine where
  "good_engine =
     \<lparr>start_fails = False, launch_fails = False, new_context_fails = False,
      context_close_fails = False, browser_close_fails = False, stop_fails = False\<rparr>"

definition no_launch_engine :: engine where
  "no_launch_engine = good_engine\<lparr>launch_fails := True\<rparr>"

definition no_context_engine :: engine where
  "no_context_engine = good_engine\<lparr>new_context_fails := True\<rparr>"

text \<open>Tagged results for evaluating the sort: a dated and an undated one.\<close>

definition dated :: "string \<Rightarrow> string \<Rightarrow> nat item" where
  "dated d u = \<lparr>published_date = Some d, item_url = Some u, item_result = 0\<rparr>"

definition undated :: "string \<Rightarrow> nat item" where
  "undated u = \<lparr>published_date = None, item_url = Some u, item_result = 0\<rparr>"

section \<open>Properties of the crawl loop\<close>

lemma crawl_loop_inv:
  "crawl_loop E mp sc pdf cands st = Inr st' \<Longrightarrow> results st \<noteq> [] \<Longrightarrow>
   int (length (results st)) \<le> max 1 mp \<Longrightarrow>
   int (length (results st')) \<le> max 1 mp \<and> results st' \<noteq> []
     \<and> hd (results st') = hd (results st)"
proof (induction cands arbitrary: st)
  case Nil
  then show ?case by simp
next
  case (Cons u us)
  show ?case
  proof (cases "int (length (results st)) \<ge> mp")
    case True
    with Cons.prems show ?thesis by simp
  next
    case False
    with Cons.prems obtain n where n: "normalize_url E u = Inr n"
      by (auto split: sum.splits)
    show ?thesis
    proof (cases "n \<in> visited st")
      case True
      with Cons False n show ?thesis by simp
    next
      case nv: False
      let ?st1 = "st\<lparr>visited := insert n (visited st), fetch_log := fetch_log st @ [u]\<rparr>"
      let ?st2 = "?st1\<lparr>results := results st @
          (case fetch E u sc pdf of
             Inr r \<Rightarrow> if fr_status r < 400 then [r] else []
           | Inl e \<Rightarrow> [])\<rparr>"
      from Cons.prems False n nv have run: "crawl_loop E mp sc pdf us ?st2 = Inr st'"
        by (auto simp: Let_def split: sum.splits if_splits)
      have ne: "results ?st2 \<noteq> []" using Cons.prems by simp
      have le: "int (length (results ?st2)) \<le> max 1 mp"
        using False by (auto split: sum.splits)
      have "hd (results ?st2) = hd (results st)" using Cons.prems by simp
      with Cons.IH [OF run ne le] show ?thesis by simp
    qed
  qed
qed

lemma crawl_loop_total:
  "(\<forall>u\<in>set cands. \<exists>n. normalize_url E u = Inr n) \<Longrightarrow>
   (\<forall>u\<in>set cands. \<forall>e. fetch E u sc pdf = Inl e \<longrightarrow> is_Exception e) \<Longrightarrow>
   \<exists>st'. crawl_loop E mp sc pdf cands st = Inr st'"
  by (induction cands arbitrary: st) (auto simp: Let_def split: sum.splits)

lemma crawl_loop_results:
  "crawl_loop E mp sc pdf cands st = Inr st' \<Longrightarrow>
   \<exists>new. fetch_log st' = fetch_log st @ new \<and> subseq new cands
     \<and> results st' = results st @
          concat (map (\<lambda>u. case fetch E u sc pdf of
                              Inr r \<Rightarrow> if fr_status r < 400 then [r] else []
                            | Inl e \<Rightarrow> []) new)"
proof (induction cands arbitrary: st)
  case Nil
  then show ?case by simp
next
  case (Cons u us)
  show ?case
  proof (cases "int (length (results st)) \<ge> mp")
    case True
    with Cons.prems show ?thesis by simp
  next
    case False
    with Cons.prems obtain n where n: "normalize_url E u = Inr n"
      by (auto split: sum.splits)
    show ?thesis
    proof (cases "n \<in> visited st")
      case True
      with Cons.prems False n have "crawl_loop E mp sc pdf us st = Inr st'" by simp
      from Cons.IH [OF this] show ?thesis by auto
    next
      case nv: False
      let ?acc = "\<lambda>u. case fetch E u sc pdf of
                         Inr r \<Rightarrow> if fr_status r < 400 then [r] else []
                       | Inl e \<Rightarrow> []"
      let ?st1 = "st\<lparr>visited := insert n (visited st), fetch_log := fetch_log st @ [u]\<rparr>"
      let ?st2 = "?st1\<lparr>results := results st @ ?acc u\<rparr>"
      from Cons.prems False n nv have "crawl_loop E mp sc pdf us ?st2 = Inr st'"
        by (auto simp: Let_def split: sum.splits if_splits)
      from Cons.IH [OF this] obtain new where
        new: "fetch_log st' = fetch_log ?st2 @ new" "subseq new us"
          "results st' = results ?st2 @ concat (map ?acc new)"
        by blast
      show ?thesis
        by (rule exI [of _ "u # new"]) (use new in auto)
    qed
  qed
qed

lemma crawl_loop_skip_head:
  assumes "normalize_url E u = Inr n" "n \<in> visited st"
  shows "crawl_loop E mp sc pdf (u # post) st = crawl_loop E mp sc pdf post st"
  using assms by (cases post) auto

lemma crawl_loop_skip:
  "normalize_url E u = Inr n \<Longrightarrow> n \<in> visited st \<Longrightarrow>
   crawl_loop E mp sc pdf (mid @ u # post) st = crawl_loop E mp sc pdf (mid @ post) st"
proof (induction mid arbitrary: st)
  case Nil
  then show ?case using crawl_loop_skip_head by simp
next
  case (Cons m ms)
  then show ?case
    by (cases post) (auto simp: Let_def split: sum.splits)
qed

lemma crawl_loop_second_skipped:
  assumes "normalize_url E u1 = normalize_url E u2"
  shows "crawl_loop E mp sc pdf (pre @ u1 # mid @ u2 # post) st
       = crawl_loop E mp sc pdf (pre @ u1 # mid @ post) st"
proof (induction pre arbitrary: st)
  case Nil
  show ?case
  proof (cases "normalize_url E u2")
    case (Inl e)
    with assms show ?thesis by simp
  next
    case (Inr n)
    with assms have n1: "normalize_url E u1 = Inr n" by simp
    show ?thesis
      using n1 Inr crawl_loop_skip [OF Inr, of _ mp sc pdf mid post]
      by (auto simp: Let_def split: sum.splits)
  qed
next
  case (Cons p ps)
  then show ?case by (auto simp: Let_def split: sum.splits)
qed

lemma crawl_loop_log_distinct:
  "crawl_loop E mp sc pdf cands st = Inr st' \<Longrightarrow>
   (\<forall>u\<in>set (fetch_log st). \<exists>n. normalize_url E u = Inr n \<and> n \<in> visited st) \<Longrightarrow>
   distinct (map (normalize_url E) (fetch_log st)) \<Longrightarrow>
   distinct (map (normalize_url E) (fetch_log st'))"
proof (induction cands arbitrary: st)
  case Nil
  then show ?case by simp
next
  case (Cons u us)
  show ?case
  proof (cases "int (length (results st)) \<ge> mp")
    case True
    with Cons.prems show ?thesis by simp
  next
    case False
    with Cons.prems obtain n where n: "normalize_url E u = Inr n"
      by (auto split: sum.splits)
    show ?thesis
    proof (cases "n \<in> visited st")
      case True
      with Cons.prems False n have "crawl_loop E mp sc pdf us st = Inr st'" by simp
      from Cons.IH [OF this] Cons.prems show ?thesis by auto
    next
      case nv: False
      let ?st1 = "st\<lparr>visited := insert n (visited st), fetch_log := fetch_log st @ [u]\<rparr>"
      let ?st2 = "?st1\<lparr>results := results st @
          (case fetch E u sc pdf of
             Inr r \<Rightarrow> if fr_status r < 400 then [r] else []
           | Inl e \<Rightarrow> [])\<rparr>"
      from Cons.prems False n nv have run: "crawl_loop E mp sc pdf us ?st2 = Inr st'"
        by (auto simp: Let_def split: sum.splits if_splits)
      have a: "\<forall>u\<in>set (fetch_log ?st2). \<exists>n. normalize_url E u = Inr n \<and> n \<in> visited ?st2"
        using Cons.prems(2) n by auto
      have b: "distinct (map (normalize_url E) (fetch_log ?st2))"
        using Cons.prems(2,3) n nv by auto
      from Cons.IH [OF run a b] show ?thesis .
    qed
  qed
qed

lemma deep_crawl_state_init:
  assumes "deep_crawl_state E start_url mp pat sc pdf = Inr st"
  obtains parsed_start start_result n0 discovered where
    "urlparse E start_url = Some parsed_start"
    "fetch E start_url sc pdf = Inr start_result"
    "normalize_url E start_url = Inr n0"
    "extract_links E (fr_html start_result) start_url (u_netloc parsed_start) = Inr discovered"
    "crawl_loop E mp sc pdf (filter_pattern E pat discovered)
       \<lparr>results = [start_result], visited = {n0}, fetch_log = [start_url]\<rparr> = Inr st"
  using assms unfolding deep_crawl_state_def
  by (auto split: option.splits sum.splits)

lemma subseq_set_subset: "subseq xs ys \<Longrightarrow> set xs \<subseteq> set ys"
  by (induction rule: list_emb.induct) auto

lemma crawl_loop_all_fail:
  assumes "\<forall>u\<in>set cands. \<exists>n. normalize_url E u = Inr n"
    and "\<forall>u\<in>set cands. \<exists>e. fetch E u sc pdf = Inl e \<and> is_Exception e"
  shows "\<exists>st'. crawl_loop E mp sc pdf cands st = Inr st' \<and> results st' = results st"
proof -
  let ?acc = "\<lambda>u. case fetch E u sc pdf of
                     Inr r \<Rightarrow> if fr_status r < 400 then [r] else []
                   | Inl e \<Rightarrow> []"
  from assms(2) have "\<forall>u\<in>set cands. \<forall>e. fetch E u sc pdf = Inl e \<longrightarrow> is_Exception e"
    by auto
  from crawl_loop_total [OF assms(1) this]
  obtain st' where run: "crawl_loop E mp sc pdf cands st = Inr st'" by blast
  from crawl_loop_results [OF run] obtain new where
    new: "subseq new cands" "results st' = results st @ concat (map ?acc new)"
    by blast
  from new(1) have "set new \<subseteq> set cands" by (rule subseq_set_subset)
  with assms(2) have "\<forall>u\<in>set new. ?acc u = []" by fastforce
  then have "concat (map ?acc new) = []" by simp
  with new(2) run show ?thesis by simp
qed

section \<open>Properties of link extraction\<close>

lemma collect_links_sound:
  "collect_links E base_url base_domain hrefs = Inr links \<Longrightarrow>
   \<forall>u\<in>set links. \<exists>p. urlparse E u = Some p \<and> u_netloc p = base_domain
      \<and> u_scheme p \<in> {''http'', ''https''} \<and> \<not> has_skip_ext (u_path p)"
proof (induction hrefs arbitrary: links)
  case Nil
  then show ?case by simp
next
  case (Cons h hs)
  then show ?case
    by (fastforce split: if_splits option.splits sum.splits)
qed

lemma dedup_links_props:
  "dedup_links E seen cs = Inr links \<Longrightarrow>
   subseq links cs \<and> distinct (map (normalize_url E) links)
   \<and> (\<forall>l\<in>set links. normalize_url E l \<notin> Inr ` seen)
   \<and> (\<forall>c\<in>set cs. normalize_url E c \<in> Inr ` seen \<union> normalize_url E ` set links)
   \<and> (\<forall>l\<in>set links. \<exists>n. normalize_url E l = Inr n)
   \<and> (\<forall>l\<in>set links. \<exists>pre post. cs = pre @ l # post
          \<and> (\<forall>c\<in>set pre. normalize_url E c \<noteq> normalize_url E l))"
proof (induction cs arbitrary: seen links)
  case Nil
  then show ?case by simp
next
  case (Cons c cs)
  from Cons.prems obtain n where n: "normalize_url E c = Inr n"
    by (auto split: sum.splits)
  show ?case
  proof (cases "n \<in> seen")
    case True
    with Cons.prems n have run: "dedup_links E seen cs = Inr links" by simp
    note ih = Cons.IH [OF run]
    have "\<forall>l\<in>set links. \<exists>pre post. c # cs = pre @ l # post
          \<and> (\<forall>c\<in>set pre. normalize_url E c \<noteq> normalize_url E l)"
    proof
      fix l assume l: "l \<in> set links"
      with ih obtain pre post where pp: "cs = pre @ l # post"
         "\<forall>c\<in>set pre. normalize_url E c \<noteq> normalize_url E l" by blast
      from ih l have "normalize_url E l \<noteq> Inr n" using True by auto
      with pp n have "c # cs = (c # pre) @ l # post \<and>
          (\<forall>c\<in>set (c # pre). normalize_url E c \<noteq> normalize_url E l)" by auto
      then show "\<exists>pre post. c # cs = pre @ l # post
          \<and> (\<forall>c\<in>set pre. normalize_url E c \<noteq> normalize_url E l)" by blast
    qed
    with ih n True show ?thesis by auto
  next
    case False
    with Cons.prems n obtain us where run: "dedup_links E (insert n seen) cs = Inr us"
      and links: "links = c # us"
      by (auto split: sum.splits)
    note ih = Cons.IH [OF run]
    have first: "\<forall>l\<in>set links. \<exists>pre post. c # cs = pre @ l # post
          \<and> (\<forall>c\<in>set pre. normalize_url E c \<noteq> normalize_url E l)"
    proof
      fix l assume l: "l \<in> set links"
      show "\<exists>pre post. c # cs = pre @ l # post
          \<and> (\<forall>c\<in>set pre. normalize_url E c \<noteq> normalize_url E l)"
      proof (cases "l \<in> set us")
        case True
        with ih obtain pre post where pp: "cs = pre @ l # post"
         "\<forall>c\<in>set pre. normalize_url E c \<noteq> normalize_url E l" by blast
        from ih True have "normalize_url E l \<noteq> Inr n" by auto
        with pp n have "c # cs = (c # pre) @ l # post \<and>
          (\<forall>c\<in>set (c # pre). normalize_url E c \<noteq> normalize_url E l)" by auto
        then show ?thesis by blast
      next
        case False
        with l links have "l = c" by simp
        then have "c # cs = [] @ l # cs \<and> (\<forall>c\<in>set []. normalize_url E c \<noteq> normalize_url E l)"
          by simp
        then show ?thesis by blast
      qed
    qed
    have d: "distinct (map (normalize_url E) links)"
      using ih links n by auto
    have s: "subseq links (c # cs)" using ih links by simp
    have a: "\<forall>l\<in>set links. normalize_url E l \<notin> Inr ` seen"
      using ih links n False by auto
    have b: "\<forall>c'\<in>set (c # cs). normalize_url E c' \<in> Inr ` seen \<union> normalize_url E ` set links"
      using ih links n by auto
    have e: "\<forall>l\<in>set links. \<exists>n. normalize_url E l = Inr n"
      using ih links n by auto
    from first d s a b e show ?thesis by blast
  qed
qed

lemma extract_links_normalizable:
  assumes "extract_links E html base_url base_domain = Inr links"
  shows "\<forall>l\<in>set links. \<exists>n. normalize_url E l = Inr n"
proof -
  from assms obtain collected where
    "dedup_links E {} collected = Inr links"
    by (auto simp: extract_links_def split: sum.splits)
  from dedup_links_props [OF this] show ?thesis by blast
qed

section \<open>Concrete runs of the crawler\<close>

lemma demo_extract:
  "extract_links demo_env ''SEED'' ''https://ex.com/'' ''ex.com''
   = Inr [''https://ex.com/a'', ''https://ex.com/b'', ''https://ex.com/c'',
          ''https://ex.com/d'']"
  by code_simp

lemma demo_crawl3:
  "deep_crawl demo_env ''https://ex.com/'' 3 None False False
   = Inr [page ''SEED'' ''https://ex.com/'' 500, page ''A'' ''https://ex.com/a'' 200,
          page ''D'' ''https://ex.com/d'' 200]"
  by code_simp

section \<open>The claims about the crawler\<close>

text \<open>
  C1, as the spec states it, fails when \<^verbatim>\<open>max_pages\<close> is 0: the seed page is fetched
  and kept before the budget is read, so the list has one element.
\<close>

theorem budget_zero_counterexample:
  "deep_crawl demo_env ''https://ex.com/'' 0 None False False
     = Inr [page ''SEED'' ''https://ex.com/'' 500]
   \<and> \<not> int (length [page ''SEED'' ''https://ex.com/'' 500]) \<le> 0"
  by code_simp

text \<open>
  C1, amended: when the seed is fetched, the list never has more than
  \<open>max 1 max_pages\<close> elements, at every point of the loop (after any number \<open>k\<close> of
  candidates) and in the list \<^verbatim>\<open>deep_crawl\<close> returns, and its first element is the
  seed's result, whatever its status code.
\<close>

theorem crawl_budget_seed_first:
  assumes "fetch E start_url screenshot pdf = Inr start_result"
  shows "(crawl_loop E max_pages screenshot pdf (take k cands)
            \<lparr>results = [start_result], visited = V, fetch_log = L\<rparr> = Inr st
          \<longrightarrow> int (length (results st)) \<le> max 1 max_pages
              \<and> results st \<noteq> [] \<and> results st ! 0 = start_result)
       \<and> (deep_crawl E start_url max_pages url_pattern screenshot pdf = Inr rs
          \<longrightarrow> int (length rs) \<le> max 1 max_pages \<and> rs \<noteq> [] \<and> rs ! 0 = start_result)"
proof (intro conjI impI)
  assume run: "crawl_loop E max_pages screenshot pdf (take k cands)
            \<lparr>results = [start_result], visited = V, fetch_log = L\<rparr> = Inr st"
  from crawl_loop_inv [OF run]
  have "int (length (results st)) \<le> max 1 max_pages \<and> results st \<noteq> []
        \<and> hd (results st) = start_result"
    by simp
  then show "int (length (results st)) \<le> max 1 max_pages" "results st \<noteq> []"
    "results st ! 0 = start_result"
    by (auto simp: hd_conv_nth)
next
  assume dc: "deep_crawl E start_url max_pages url_pattern screenshot pdf = Inr rs"
  then obtain st where st: "deep_crawl_state E start_url max_pages url_pattern screenshot pdf = Inr st"
    and rs: "rs = results st"
    by (auto simp: deep_crawl_def split: sum.splits)
  from st obtain r0 n0 cands where
    f: "fetch E start_url screenshot pdf = Inr r0"
    and run: "crawl_loop E max_pages screenshot pdf cands
       \<lparr>results = [r0], visited = {n0}, fetch_log = [start_url]\<rparr> = Inr st"
    by (rule deep_crawl_state_init)
  from f assms have r0: "r0 = start_result" by simp
  from crawl_loop_inv [OF run]
  have "int (length (results st)) \<le> max 1 max_pages \<and> results st \<noteq> []
        \<and> hd (results st) = start_result"
    using r0 by simp
  with rs show "int (length rs) \<le> max 1 max_pages" "rs \<noteq> []" "rs ! 0 = start_result"
    by (auto simp: hd_conv_nth)
qed

theorem crawl_budget_seed_first_witness:
  "fetch demo_env ''https://ex.com/'' False False = Inr (page ''SEED'' ''https://ex.com/'' 500)
   \<and> deep_crawl demo_env ''https://ex.com/'' 3 None False False
       = Inr [page ''SEED'' ''https://ex.com/'' 500, page ''A'' ''https://ex.com/a'' 200,
              page ''D'' ''https://ex.com/d'' 200]
   \<and> int (length [page ''SEED'' ''https://ex.com/'' 500, page ''A'' ''https://ex.com/a'' 200,
              page ''D'' ''https://ex.com/d'' 200]) \<le> max 1 3
   \<and> [page ''SEED'' ''https://ex.com/'' 500, page ''A'' ''https://ex.com/a'' 200,
       page ''D'' ''https://ex.com/d'' 200] ! 0 = page ''SEED'' ''https://ex.com/'' 500"
proof -
  have f: "fetch demo_env ''https://ex.com/'' False False
           = Inr (page ''SEED'' ''https://ex.com/'' 500)"
    by (simp add: demo_env_def demo_fetch_def)
  from crawl_budget_seed_first [OF f, of 3 0 "[]" "{}" "[]" _ None] demo_crawl3 f
  show ?thesis by simp
qed

text \<open>
  C10. The fetch of the seed is not inside the \<^verbatim>\<open>try\<close>: when it raises, \<^verbatim>\<open>deep_crawl\<close>
  raises the same exception and returns no list. (\<^verbatim>\<open>urlparse(start_url)\<close> runs before the
  fetch, so the seed is fetched only when the seed URL parses.) Failures of the other
  fetches are swallowed: when the seed is fetched and every discovered link fails with an
  \<^verbatim>\<open>Exception\<close>, \<^verbatim>\<open>deep_crawl\<close> returns the list that holds the seed's result.
\<close>

theorem seed_failure_propagates:
  assumes "urlparse E start_url = Some parsed_start"
  shows "(fetch E start_url screenshot pdf = Inl e
          \<longrightarrow> deep_crawl E start_url max_pages url_pattern screenshot pdf = Inl e)
       \<and> (fetch E start_url screenshot pdf = Inr r
          \<and> extract_links E (fr_html r) start_url (u_netloc parsed_start) = Inr discovered
          \<and> (\<forall>u\<in>set discovered. \<exists>e'. fetch E u screenshot pdf = Inl e' \<and> is_Exception e')
          \<longrightarrow> deep_crawl E start_url max_pages url_pattern screenshot pdf = Inr [r])"
proof (intro conjI impI)
  assume "fetch E start_url screenshot pdf = Inl e"
  with assms show "deep_crawl E start_url max_pages url_pattern screenshot pdf = Inl e"
    by (simp add: deep_crawl_def deep_crawl_state_def)
next
  assume a: "fetch E start_url screenshot pdf = Inr r
          \<and> extract_links E (fr_html r) start_url (u_netloc parsed_start) = Inr discovered
          \<and> (\<forall>u\<in>set discovered. \<exists>e'. fetch E u screenshot pdf = Inl e' \<and> is_Exception e')"
  let ?cands = "filter_pattern E url_pattern discovered"
  from assms obtain n0 where n0: "normalize_url E start_url = Inr n0"
    by (simp add: normalize_url_def Let_def)
  have sub: "set ?cands \<subseteq> set discovered"
    by (auto simp: filter_pattern_def split: option.splits)
  from a have ex: "extract_links E (fr_html r) start_url (u_netloc parsed_start) = Inr discovered"
    by simp
  have "\<forall>l\<in>set discovered. \<exists>n. normalize_url E l = Inr n"
    by (rule extract_links_normalizable [OF ex])
  with sub have norm: "\<forall>u\<in>set ?cands. \<exists>n. normalize_url E u = Inr n" by blast
  from a sub have fail: "\<forall>u\<in>set ?cands. \<exists>e'. fetch E u screenshot pdf = Inl e' \<and> is_Exception e'"
    by blast
  from crawl_loop_all_fail [OF norm fail] obtain st' where
    "crawl_loop E max_pages screenshot pdf ?cands
       \<lparr>results = [r], visited = {n0}, fetch_log = [start_url]\<rparr> = Inr st'"
    and "results st' = [r]"
    by fastforce
  with assms a n0 show "deep_crawl E start_url max_pages url_pattern screenshot pdf = Inr [r]"
    by (simp add: deep_crawl_def deep_crawl_state_def)
qed

lemma down_parse:
  "urlparse down_env ''https://ex.com/'' = Some (url_parts ''https'' ''ex.com'' ''/'' [])"
  by code_simp

lemma down_crawl:
  "deep_crawl down_env ''https://ex.com/'' 3 None False False = Inl (FetchError ''refused'')"
  by code_simp

lemma flaky_crawl:
  "deep_crawl flaky_env ''https://ex.com/'' 3 None False False
   = Inr [page ''SEED'' ''https://ex.com/'' 200]"
  by code_simp

theorem seed_failure_propagates_witness:
  "urlparse down_env ''https://ex.com/'' = Some (url_parts ''https'' ''ex.com'' ''/'' [])
   \<and> fetch down_env ''https://ex.com/'' False False = Inl (FetchError ''refused'')
   \<and> deep_crawl down_env ''https://ex.com/'' 3 None False False = Inl (FetchError ''refused'')
   \<and> deep_crawl flaky_env ''https://ex.com/'' 3 None False False
       = Inr [page ''SEED'' ''https://ex.com/'' 200]"
proof -
  have f: "fetch down_env ''https://ex.com/'' False False = Inl (FetchError ''refused'')"
    by (simp add: down_env_def)
  from seed_failure_propagates [OF down_parse, of False False "FetchError ''refused''" 3 None]
  have "fetch down_env ''https://ex.com/'' False False = Inl (FetchError ''refused'')
        \<longrightarrow> deep_crawl down_env ''https://ex.com/'' 3 None False False
            = Inl (FetchError ''refused'')"
    by (rule conjunct1)
  with f have "deep_crawl down_env ''https://ex.com/'' 3 None False False
            = Inl (FetchError ''refused'')"
    by (rule rev_mp)
  with down_parse f flaky_crawl show ?thesis by (intro conjI)
qed

text \<open>
  C6. In the loop, for a candidate that is within the budget and not yet visited: a fetch
  that raises an \<^verbatim>\<open>Exception\<close> is swallowed and the loop goes on with the next candidate,
  the list \<^verbatim>\<open>results\<close> unchanged; a fetch that returns is appended exactly when its
  status is below 400. Over the whole loop, \<^verbatim>\<open>results\<close> grows by the fetched pages that
  returned with a status below 400, in order, and the loop itself never raises when URL
  parsing does not fail and the fetches raise nothing but \<^verbatim>\<open>Exception\<close>s.
\<close>

theorem candidate_fetch_policy:
  assumes "int (length (results st)) < max_pages"
    and "normalize_url E url = Inr n"
    and "n \<notin> visited st"
  shows "(\<forall>e. fetch E url screenshot pdf = Inl e \<and> is_Exception e \<longrightarrow>
            crawl_loop E max_pages screenshot pdf (url # rest) st
            = crawl_loop E max_pages screenshot pdf rest
                (st\<lparr>visited := insert n (visited st), fetch_log := fetch_log st @ [url]\<rparr>))
       \<and> (\<forall>r. fetch E url screenshot pdf = Inr r \<longrightarrow>
            crawl_loop E max_pages screenshot pdf (url # rest) st
            = crawl_loop E max_pages screenshot pdf rest
                (st\<lparr>visited := insert n (visited st), fetch_log := fetch_log st @ [url],
                    results := (if fr_status r < 400 then results st @ [r] else results st)\<rparr>))
       \<and> (\<forall>st'. crawl_loop E max_pages screenshot pdf (url # rest) st = Inr st' \<longrightarrow>
            results st' = results st @
              concat (map (\<lambda>u. case fetch E u screenshot pdf of
                                  Inr r \<Rightarrow> if fr_status r < 400 then [r] else []
                                | Inl e \<Rightarrow> [])
                        (drop (length (fetch_log st)) (fetch_log st'))))
       \<and> ((\<forall>u\<in>set rest. \<exists>m. normalize_url E u = Inr m)
           \<and> (\<forall>u\<in>set (url # rest). \<forall>e. fetch E u screenshot pdf = Inl e \<longrightarrow> is_Exception e)
           \<longrightarrow> (\<exists>st'. crawl_loop E max_pages screenshot pdf (url # rest) st = Inr st'))"
proof (intro conjI allI impI)
  fix e assume "fetch E url screenshot pdf = Inl e \<and> is_Exception e"
  with assms show "crawl_loop E max_pages screenshot pdf (url # rest) st
            = crawl_loop E max_pages screenshot pdf rest
                (st\<lparr>visited := insert n (visited st), fetch_log := fetch_log st @ [url]\<rparr>)"
    by simp
next
  fix r assume "fetch E url screenshot pdf = Inr r"
  with assms show "crawl_loop E max_pages screenshot pdf (url # rest) st
            = crawl_loop E max_pages screenshot pdf rest
                (st\<lparr>visited := insert n (visited st), fetch_log := fetch_log st @ [url],
                    results := (if fr_status r < 400 then results st @ [r] else results st)\<rparr>)"
    by simp
next
  fix st' assume "crawl_loop E max_pages screenshot pdf (url # rest) st = Inr st'"
  from crawl_loop_results [OF this] obtain new where
    "fetch_log st' = fetch_log st @ new"
    "results st' = results st @
       concat (map (\<lambda>u. case fetch E u screenshot pdf of
                           Inr r \<Rightarrow> if fr_status r < 400 then [r] else []
                         | Inl e \<Rightarrow> []) new)"
    by blast
  then show "results st' = results st @
              concat (map (\<lambda>u. case fetch E u screenshot pdf of
                                  Inr r \<Rightarrow> if fr_status r < 400 then [r] else []
                                | Inl e \<Rightarrow> [])
                        (drop (length (fetch_log st)) (fetch_log st')))"
    by simp
next
  assume a: "(\<forall>u\<in>set rest. \<exists>m. normalize_url E u = Inr m)
           \<and> (\<forall>u\<in>set (url # rest). \<forall>e. fetch E u screenshot pdf = Inl e \<longrightarrow> is_Exception e)"
  with assms(2) have "\<forall>u\<in>set (url # rest). \<exists>m. normalize_url E u = Inr m" by simp
  from crawl_loop_total [OF this] a
  show "\<exists>st'. crawl_loop E max_pages screenshot pdf (url # rest) st = Inr st'" by blast
qed

lemma demo_norm_b: "normalize_url demo_env ''https://ex.com/b'' = Inr ''https://ex.com/b''"
  by code_simp

lemma demo_fetch_b: "fetch demo_env ''https://ex.com/b'' False False = Inl (FetchError ''timeout'')"
  by code_simp

lemma demo_loop_b:
  "map_sum id results (crawl_loop demo_env 3 False False [''https://ex.com/b'', ''https://ex.com/c'', ''https://ex.com/d''] demo_state)
   = Inr [page ''SEED'' ''https://ex.com/'' 500, page ''D'' ''https://ex.com/d'' 200]"
  by code_simp

theorem candidate_fetch_policy_witness:
  "int (length (results demo_state)) < 3
   \<and> normalize_url demo_env ''https://ex.com/b'' = Inr ''https://ex.com/b''
   \<and> ''https://ex.com/b'' \<notin> visited demo_state
   \<and> fetch demo_env ''https://ex.com/b'' False False = Inl (FetchError ''timeout'')
   \<and> crawl_loop demo_env 3 False False [''https://ex.com/b'', ''https://ex.com/c'', ''https://ex.com/d''] demo_state
     = crawl_loop demo_env 3 False False [''https://ex.com/c'', ''https://ex.com/d'']
         (demo_state\<lparr>visited := insert ''https://ex.com/b'' (visited demo_state),
                      fetch_log := fetch_log demo_state @ [''https://ex.com/b'']\<rparr>)
   \<and> map_sum id results (crawl_loop demo_env 3 False False [''https://ex.com/b'', ''https://ex.com/c'', ''https://ex.com/d''] demo_state)
     = Inr [page ''SEED'' ''https://ex.com/'' 500, page ''D'' ''https://ex.com/d'' 200]"
proof -
  have a: "int (length (results demo_state)) < 3" by (simp add: demo_state_def)
  have c: "''https://ex.com/b'' \<notin> visited demo_state" by (simp add: demo_state_def)
  from candidate_fetch_policy [OF a demo_norm_b c, of False False "[''https://ex.com/c'', ''https://ex.com/d'']"]
    demo_fetch_b
  have "crawl_loop demo_env 3 False False [''https://ex.com/b'', ''https://ex.com/c'', ''https://ex.com/d''] demo_state
     = crawl_loop demo_env 3 False False [''https://ex.com/c'', ''https://ex.com/d'']
         (demo_state\<lparr>visited := insert ''https://ex.com/b'' (visited demo_state),
                      fetch_log := fetch_log demo_state @ [''https://ex.com/b'']\<rparr>)"
    by (simp del: crawl_loop.simps)
  with a c demo_norm_b demo_fetch_b demo_loop_b show ?thesis by (simp del: crawl_loop.simps)
qed

text \<open>
  What \<^verbatim>\<open>rstrip("/")\<close> returns: the string without its trailing slashes. It is the one
  prefix that does not end in a slash and that only slashes follow.
\<close>

lemma rstrip_slash_decomp:
  "\<exists>k. s = rstrip_slash s @ replicate k (CHR ''/'')
       \<and> (rstrip_slash s = [] \<or> last (rstrip_slash s) \<noteq> CHR ''/'')"
proof -
  let ?P = "\<lambda>c. c = CHR ''/''"
  let ?t = "takeWhile ?P (rev s)"
  have "s = rev (?t @ dropWhile ?P (rev s))"
    by (simp only: takeWhile_dropWhile_id rev_rev_ident)
  then have s: "s = rstrip_slash s @ rev ?t"
    by (simp only: rev_append rstrip_slash_def)
  have "\<forall>c\<in>set (rev ?t). c = CHR ''/''" by (auto dest: set_takeWhileD)
  then have "replicate (length (rev ?t)) (CHR ''/'') = rev ?t"
    by (rule replicate_length_same)
  with s have a: "s = rstrip_slash s @ replicate (length (rev ?t)) (CHR ''/'')"
    by (simp only:)
  have b: "rstrip_slash s = [] \<or> last (rstrip_slash s) \<noteq> CHR ''/''"
  proof (cases "dropWhile ?P (rev s) = []")
    case True
    then show ?thesis by (simp add: rstrip_slash_def)
  next
    case False
    then have "\<not> ?P (hd (dropWhile ?P (rev s)))" by (rule hd_dropWhile)
    with False show ?thesis by (simp add: rstrip_slash_def last_rev)
  qed
  from a b show ?thesis by blast
qed

lemma rstrip_slash_unique:
  assumes "s = base @ replicate k (CHR ''/'')" and "base = [] \<or> last base \<noteq> CHR ''/''"
  shows "rstrip_slash s = base"
proof -
  let ?P = "\<lambda>c. c = CHR ''/''"
  have "rev s = replicate k (CHR ''/'') @ rev base" using assms(1) by simp
  moreover have "dropWhile ?P (replicate k (CHR ''/'') @ rev base) = dropWhile ?P (rev base)"
    by (induction k) simp_all
  ultimately have "dropWhile ?P (rev s) = dropWhile ?P (rev base)"
    by simp
  also have "\<dots> = rev base"
  proof (cases "base = []")
    case True then show ?thesis by simp
  next
    case False
    with assms(2) have "hd (rev base) \<noteq> CHR ''/''" by (simp add: hd_rev)
    with False show ?thesis by (cases "rev base") simp_all
  qed
  finally show ?thesis by (simp add: rstrip_slash_def)
qed

text \<open>
  C9. \<^verbatim>\<open>_normalize_url\<close> keeps the scheme, the host and the path without its trailing
  slashes (\<^verbatim>\<open>/\<close> when nothing is left), and nothing else. The path of the URL is some
  \<open>base\<close> that does not end in a slash, followed by \<open>k\<close> slashes (\<open>k\<close> may be 0), and the
  normalized URL is \<^verbatim>\<open>scheme://host\<close> followed by \<open>base\<close>, or by \<^verbatim>\<open>/\<close> when \<open>base\<close> is
  empty. Two URLs whose scheme, host and path agree have the same normalized URL,
  whatever their query strings, parameters and fragments. In the loop the second of two
  such candidates changes nothing (the run is the run without it), and no crawl fetches
  both.
\<close>

theorem normalize_url_drops_query:
  assumes "urlparse E u1 = Some p1"
    and "urlparse E u2 = Some p2"
    and "u_scheme p1 = u_scheme p2"
    and "u_netloc p1 = u_netloc p2"
    and "u_path p1 = u_path p2"
  shows "(\<exists>base k. u_path p1 = base @ replicate k (CHR ''/'')
            \<and> (base = [] \<or> last base \<noteq> CHR ''/'')
            \<and> normalize_url E u1
                = Inr (u_scheme p1 @ ''://'' @ u_netloc p1 @ (if base = [] then ''/'' else base)))
       \<and> normalize_url E u2 = normalize_url E u1
       \<and> crawl_loop E max_pages screenshot pdf (pre @ u1 # mid @ u2 # post) st
           = crawl_loop E max_pages screenshot pdf (pre @ u1 # mid @ post) st
       \<and> (deep_crawl_state E start_url max_pages url_pattern screenshot pdf = Inr st'
           \<and> u1 \<noteq> u2
           \<longrightarrow> \<not> (u1 \<in> set (fetch_log st') \<and> u2 \<in> set (fetch_log st')))"
proof -
  from assms(1) have n: "normalize_url E u1
           = Inr (u_scheme p1 @ ''://'' @ u_netloc p1
                  @ (if rstrip_slash (u_path p1) = [] then ''/'' else rstrip_slash (u_path p1)))"
    by (simp add: normalize_url_def Let_def)
  from rstrip_slash_decomp [of "u_path p1"] obtain k where
    "u_path p1 = rstrip_slash (u_path p1) @ replicate k (CHR ''/'')"
    and "rstrip_slash (u_path p1) = [] \<or> last (rstrip_slash (u_path p1)) \<noteq> CHR ''/''"
    by blast
  with n have n1: "\<exists>base k. u_path p1 = base @ replicate k (CHR ''/'')
            \<and> (base = [] \<or> last base \<noteq> CHR ''/'')
            \<and> normalize_url E u1
                = Inr (u_scheme p1 @ ''://'' @ u_netloc p1 @ (if base = [] then ''/'' else base))"
    by blast
  from assms have eq: "normalize_url E u2 = normalize_url E u1"
    by (simp add: normalize_url_def Let_def)
  have skip: "crawl_loop E max_pages screenshot pdf (pre @ u1 # mid @ u2 # post) st
           = crawl_loop E max_pages screenshot pdf (pre @ u1 # mid @ post) st"
    by (rule crawl_loop_second_skipped) (simp add: eq)
  have never: "\<not> (u1 \<in> set (fetch_log st') \<and> u2 \<in> set (fetch_log st'))"
    if run: "deep_crawl_state E start_url max_pages url_pattern screenshot pdf = Inr st'"
      and ne: "u1 \<noteq> u2"
  proof -
    from run obtain r0 n0 cands where
      n0: "normalize_url E start_url = Inr n0"
      and loop: "crawl_loop E max_pages screenshot pdf cands
         \<lparr>results = [r0], visited = {n0}, fetch_log = [start_url]\<rparr> = Inr st'"
      by (rule deep_crawl_state_init)
    have "distinct (map (normalize_url E) (fetch_log st'))"
      by (rule crawl_loop_log_distinct [OF loop]) (simp_all add: n0)
    then have "inj_on (normalize_url E) (set (fetch_log st'))"
      by (simp add: distinct_map)
    with eq ne show ?thesis by (auto dest: inj_onD)
  qed
  from n1 eq skip never show ?thesis by blast
qed

lemma demo_parse_a:
  "urlparse demo_env ''https://ex.com/a'' = Some (url_parts ''https'' ''ex.com'' ''/a'' [])"
  by code_simp

lemma demo_parse_aq:
  "urlparse demo_env ''https://ex.com/a?x=1'' = Some (url_parts ''https'' ''ex.com'' ''/a'' ''x=1'')"
  by code_simp

lemma demo_parse_slashes:
  "urlparse demo_env ''https://ex.com/a//#top'' = Some (url_parts ''https'' ''ex.com'' ''/a//'' [])"
  by code_simp

lemma demo_parse_slashes_q:
  "urlparse demo_env ''https://ex.com/a//?x=1'' = Some (url_parts ''https'' ''ex.com'' ''/a//'' ''x=1'')"
  by code_simp

lemma demo_parse_root:
  "urlparse demo_env ''https://ex.com/'' = Some (url_parts ''https'' ''ex.com'' ''/'' [])"
  by code_simp

lemma demo_parse_root_q:
  "urlparse demo_env ''https://ex.com/?x=1'' = Some (url_parts ''https'' ''ex.com'' ''/'' ''x=1'')"
  by code_simp

lemma demo_parse_bare:
  "urlparse demo_env ''https://ex.com'' = Some (url_parts ''https'' ''ex.com'' [] [])"
  by code_simp

lemma demo_parse_bare_q:
  "urlparse demo_env ''https://ex.com?x=1'' = Some (url_parts ''https'' ''ex.com'' [] ''x=1'')"
  by code_simp

lemma demo_loop_aq:
  "map_sum id fetch_log
     (crawl_loop demo_env 3 False False
        [''https://ex.com/a'', ''https://ex.com/a?x=1'', ''https://ex.com/d''] demo_state)
   = Inr [''https://ex.com/'', ''https://ex.com/a'', ''https://ex.com/d'']"
  by code_simp

lemma demo_rstrip:
  "rstrip_slash ''/a'' = ''/a''" "rstrip_slash ''/a//'' = ''/a''" "rstrip_slash [] = []"
  "rstrip_slash ''/'' = []"
  by code_simp+

text \<open>
  Four runs of C9: a path without a trailing slash; a path with two of them
  (\<^verbatim>\<open>/a//\<close> gives \<^verbatim>\<open>/a\<close>, as the first run, so a page and its trailing-slash form are
  one page); the empty path and the root path, which both give \<^verbatim>\<open>/\<close>.
\<close>

theorem normalize_url_drops_query_witness:
  "urlparse demo_env ''https://ex.com/a'' = Some (url_parts ''https'' ''ex.com'' ''/a'' [])
   \<and> urlparse demo_env ''https://ex.com/a?x=1'' = Some (url_parts ''https'' ''ex.com'' ''/a'' ''x=1'')
   \<and> normalize_url demo_env ''https://ex.com/a'' = Inr ''https://ex.com/a''
   \<and> normalize_url demo_env ''https://ex.com/a?x=1'' = Inr ''https://ex.com/a''
   \<and> crawl_loop demo_env 3 False False
        [''https://ex.com/a'', ''https://ex.com/a?x=1'', ''https://ex.com/d''] demo_state
      = crawl_loop demo_env 3 False False [''https://ex.com/a'', ''https://ex.com/d''] demo_state
   \<and> map_sum id fetch_log
        (crawl_loop demo_env 3 False False
           [''https://ex.com/a'', ''https://ex.com/a?x=1'', ''https://ex.com/d''] demo_state)
      = Inr [''https://ex.com/'', ''https://ex.com/a'', ''https://ex.com/d'']
   \<and> normalize_url demo_env ''https://ex.com/a//#top'' = Inr ''https://ex.com/a''
   \<and> normalize_url demo_env ''https://ex.com/a//?x=1'' = Inr ''https://ex.com/a''
   \<and> normalize_url demo_env ''https://ex.com'' = Inr ''https://ex.com/''
   \<and> normalize_url demo_env ''https://ex.com?x=1'' = Inr ''https://ex.com/''
   \<and> normalize_url demo_env ''https://ex.com/'' = Inr ''https://ex.com/''
   \<and> normalize_url demo_env ''https://ex.com/?x=1'' = Inr ''https://ex.com/''"
proof -
  have same: "u_scheme (url_parts s h p q) = u_scheme (url_parts s h p q')"
    "u_netloc (url_parts s h p q) = u_netloc (url_parts s h p q')"
    "u_path (url_parts s h p q) = u_path (url_parts s h p q')"
    for s h p q q'
    by (simp_all add: url_parts_def)
  have parts: "u_scheme (url_parts s h p q) = s" "u_netloc (url_parts s h p q) = h"
    "u_path (url_parts s h p q) = p" for s h p q
    by (simp_all add: url_parts_def)
  note t = normalize_url_drops_query [OF demo_parse_a demo_parse_aq same,
      of 3 False False "[]" "[]" "[''https://ex.com/d'']" demo_state]
  note t2 = normalize_url_drops_query [OF demo_parse_slashes demo_parse_slashes_q same,
      of 3 False False "[]" "[]" "[]" demo_state]
  note t3 = normalize_url_drops_query [OF demo_parse_bare demo_parse_bare_q same,
      of 3 False False "[]" "[]" "[]" demo_state]
  from t obtain base k where
    d: "u_path (url_parts ''https'' ''ex.com'' ''/a'' []) = base @ replicate k (CHR ''/'')"
    and e: "base = [] \<or> last base \<noteq> CHR ''/''"
    and v: "normalize_url demo_env ''https://ex.com/a''
            = Inr (u_scheme (url_parts ''https'' ''ex.com'' ''/a'' []) @ ''://''
                   @ u_netloc (url_parts ''https'' ''ex.com'' ''/a'' [])
                   @ (if base = [] then ''/'' else base))"
    by blast
  from rstrip_slash_unique [OF d e] have "base = ''/a''"
    by (simp only: parts demo_rstrip)
  with v have n: "normalize_url demo_env ''https://ex.com/a'' = Inr ''https://ex.com/a''"
    by (simp add: parts)
  from t have n2: "normalize_url demo_env ''https://ex.com/a?x=1'' = normalize_url demo_env ''https://ex.com/a''"
    by blast
  from t have l: "crawl_loop demo_env 3 False False
        [''https://ex.com/a'', ''https://ex.com/a?x=1'', ''https://ex.com/d''] demo_state
      = crawl_loop demo_env 3 False False [''https://ex.com/a'', ''https://ex.com/d''] demo_state"
    by (simp del: crawl_loop.simps)
  from t2 obtain base2 k2 where
    d2: "u_path (url_parts ''https'' ''ex.com'' ''/a//'' []) = base2 @ replicate k2 (CHR ''/'')"
    and e2: "base2 = [] \<or> last base2 \<noteq> CHR ''/''"
    and v2: "normalize_url demo_env ''https://ex.com/a//#top''
            = Inr (u_scheme (url_parts ''https'' ''ex.com'' ''/a//'' []) @ ''://''
                   @ u_netloc (url_parts ''https'' ''ex.com'' ''/a//'' [])
                   @ (if base2 = [] then ''/'' else base2))"
    by blast
  from rstrip_slash_unique [OF d2 e2] have "base2 = ''/a''"
    by (simp only: parts demo_rstrip)
  with v2 have s1: "normalize_url demo_env ''https://ex.com/a//#top'' = Inr ''https://ex.com/a''"
    by (simp add: parts)
  from t2 have s2: "normalize_url demo_env ''https://ex.com/a//?x=1''
      = normalize_url demo_env ''https://ex.com/a//#top''"
    by blast
  from t3 obtain base3 k3 where
    d3: "u_path (url_parts ''https'' ''ex.com'' [] []) = base3 @ replicate k3 (CHR ''/'')"
    and e3: "base3 = [] \<or> last base3 \<noteq> CHR ''/''"
    and v3: "normalize_url demo_env ''https://ex.com''
            = Inr (u_scheme (url_parts ''https'' ''ex.com'' [] []) @ ''://''
                   @ u_netloc (url_parts ''https'' ''ex.com'' [] [])
                   @ (if base3 = [] then ''/'' else base3))"
    by blast
  from d3 have "base3 = []" by (simp add: parts)
  with v3 have r1: "normalize_url demo_env ''https://ex.com'' = Inr ''https://ex.com/''"
    by (simp add: parts)
  from t3 have r2: "normalize_url demo_env ''https://ex.com?x=1'' = normalize_url demo_env ''https://ex.com''"
    by blast
  note t4 = normalize_url_drops_query [OF demo_parse_root demo_parse_root_q same,
      of 3 False False "[]" "[]" "[]" demo_state]
  from t4 obtain base4 k4 where
    d4: "u_path (url_parts ''https'' ''ex.com'' ''/'' []) = base4 @ replicate k4 (CHR ''/'')"
    and e4: "base4 = [] \<or> last base4 \<noteq> CHR ''/''"
    and v4: "normalize_url demo_env ''https://ex.com/''
            = Inr (u_scheme (url_parts ''https'' ''ex.com'' ''/'' []) @ ''://''
                   @ u_netloc (url_parts ''https'' ''ex.com'' ''/'' [])
                   @ (if base4 = [] then ''/'' else base4))"
    by blast
  from rstrip_slash_unique [OF d4 e4] have "base4 = []"
    by (simp only: parts demo_rstrip)
  with v4 have o1: "normalize_url demo_env ''https://ex.com/'' = Inr ''https://ex.com/''"
    by (simp add: parts)
  from t4 have o2: "normalize_url demo_env ''https://ex.com/?x=1'' = normalize_url demo_env ''https://ex.com/''"
    by blast
  from demo_parse_a demo_parse_aq n n2 l demo_loop_aq s1 s2 r1 r2 o1 o2 show ?thesis
    by (simp del: crawl_loop.simps)
qed

text \<open>
  C5. Every URL that \<^verbatim>\<open>_extract_links\<close> returns parses to the base domain as its host
  (\<^verbatim>\<open>netloc\<close>), to the scheme \<^verbatim>\<open>http\<close> or \<^verbatim>\<open>https\<close> (hence not \<^verbatim>\<open>javascript\<close>,
  \<^verbatim>\<open>mailto\<close> or \<^verbatim>\<open>tel\<close>), and to a path that does not end in one of the filtered
  extensions, in any letter case. The list has no two URLs with the same normalized URL;
  it is a subsequence of the links that passed the filters, covers the normalized URL of
  each of them, and keeps for each normalized URL the first link that has it.
\<close>

theorem extract_links_sound_dedup:
  assumes "extract_links E html base_url base_domain = Inr links"
  shows "(\<forall>u\<in>set links. \<exists>p. urlparse E u = Some p
            \<and> u_netloc p = base_domain
            \<and> u_scheme p \<in> {''http'', ''https''}
            \<and> u_scheme p \<notin> {''javascript'', ''mailto'', ''tel''}
            \<and> \<not> has_skip_ext (u_path p)
            \<and> (\<forall>e\<in>set skip_exts. \<not> endswith (CHR ''.'' # e) (map lower_char (u_path p))))
       \<and> distinct (map (normalize_url E) links)
       \<and> (\<exists>collected.
             collect_links E base_url base_domain (find_all_a_href E html) = Inr collected
             \<and> subseq links collected
             \<and> (\<forall>c\<in>set collected. normalize_url E c \<in> normalize_url E ` set links)
             \<and> (\<forall>l\<in>set links. \<exists>pre post. collected = pre @ l # post
                    \<and> (\<forall>c\<in>set pre. normalize_url E c \<noteq> normalize_url E l)))"
proof -
  from assms obtain collected where
    col: "collect_links E base_url base_domain (find_all_a_href E html) = Inr collected"
    and ded: "dedup_links E {} collected = Inr links"
    by (auto simp: extract_links_def split: sum.splits)
  note d = dedup_links_props [OF ded]
  from d have sub: "subseq links collected" by blast
  then have incl: "set links \<subseteq> set collected" by (rule subseq_set_subset)
  have sound: "\<forall>u\<in>set links. \<exists>p. urlparse E u = Some p
            \<and> u_netloc p = base_domain
            \<and> u_scheme p \<in> {''http'', ''https''}
            \<and> u_scheme p \<notin> {''javascript'', ''mailto'', ''tel''}
            \<and> \<not> has_skip_ext (u_path p)
            \<and> (\<forall>e\<in>set skip_exts. \<not> endswith (CHR ''.'' # e) (map lower_char (u_path p)))"
  proof
    fix u assume "u \<in> set links"
    with incl have "u \<in> set collected" by blast
    with collect_links_sound [OF col] obtain p where
      p: "urlparse E u = Some p" "u_netloc p = base_domain"
        "u_scheme p \<in> {''http'', ''https''}" "\<not> has_skip_ext (u_path p)"
      by blast
    from p(3) have "u_scheme p \<notin> {''javascript'', ''mailto'', ''tel''}" by auto
    moreover from p(4)
    have "\<forall>e\<in>set skip_exts. \<not> endswith (CHR ''.'' # e) (map lower_char (u_path p))"
      unfolding has_skip_ext_def by blast
    ultimately show "\<exists>p. urlparse E u = Some p
            \<and> u_netloc p = base_domain
            \<and> u_scheme p \<in> {''http'', ''https''}
            \<and> u_scheme p \<notin> {''javascript'', ''mailto'', ''tel''}
            \<and> \<not> has_skip_ext (u_path p)
            \<and> (\<forall>e\<in>set skip_exts. \<not> endswith (CHR ''.'' # e) (map lower_char (u_path p)))"
      using p by blast
  qed
  from d have dist: "distinct (map (normalize_url E) links)" by blast
  from d have cover: "\<forall>c\<in>set collected. normalize_url E c \<in> normalize_url E ` set links"
    by simp
  from d have first: "\<forall>l\<in>set links. \<exists>pre post. collected = pre @ l # post
                    \<and> (\<forall>c\<in>set pre. normalize_url E c \<noteq> normalize_url E l)"
    by blast
  from sound dist col sub cover first show ?thesis by blast
qed

lemma demo_norms:
  "map (normalize_url demo_env)
     [''https://ex.com/a'', ''https://ex.com/b'', ''https://ex.com/c'', ''https://ex.com/d'']
   = [Inr ''https://ex.com/a'', Inr ''https://ex.com/b'', Inr ''https://ex.com/c'',
      Inr ''https://ex.com/d'']"
  by code_simp

theorem extract_links_sound_dedup_witness:
  "extract_links demo_env ''SEED'' ''https://ex.com/'' ''ex.com''
     = Inr [''https://ex.com/a'', ''https://ex.com/b'', ''https://ex.com/c'', ''https://ex.com/d'']
   \<and> distinct (map (normalize_url demo_env)
        [''https://ex.com/a'', ''https://ex.com/b'', ''https://ex.com/c'', ''https://ex.com/d''])
   \<and> (\<exists>p. urlparse demo_env ''https://ex.com/a'' = Some p \<and> u_netloc p = ''ex.com''
          \<and> u_scheme p \<in> {''http'', ''https''} \<and> \<not> has_skip_ext (u_path p))"
proof -
  note t = extract_links_sound_dedup [OF demo_extract]
  from t have d: "distinct (map (normalize_url demo_env)
        [''https://ex.com/a'', ''https://ex.com/b'', ''https://ex.com/c'', ''https://ex.com/d''])"
    by (elim conjE)
  from t have "\<forall>u\<in>set [''https://ex.com/a'', ''https://ex.com/b'', ''https://ex.com/c'',
                       ''https://ex.com/d''].
      \<exists>p. urlparse demo_env u = Some p
            \<and> u_netloc p = ''ex.com''
            \<and> u_scheme p \<in> {''http'', ''https''}
            \<and> u_scheme p \<notin> {''javascript'', ''mailto'', ''tel''}
            \<and> \<not> has_skip_ext (u_path p)
            \<and> (\<forall>e\<in>set skip_exts. \<not> endswith (CHR ''.'' # e) (map lower_char (u_path p)))"
    by (rule conjunct1)
  then have "\<exists>p. urlparse demo_env ''https://ex.com/a'' = Some p
            \<and> u_netloc p = ''ex.com''
            \<and> u_scheme p \<in> {''http'', ''https''}
            \<and> u_scheme p \<notin> {''javascript'', ''mailto'', ''tel''}
            \<and> \<not> has_skip_ext (u_path p)
            \<and> (\<forall>e\<in>set skip_exts. \<not> endswith (CHR ''.'' # e) (map lower_char (u_path p)))"
    by (rule bspec) simp
  then obtain p where "urlparse demo_env ''https://ex.com/a'' = Some p" "u_netloc p = ''ex.com''"
      "u_scheme p \<in> {''http'', ''https''}" "\<not> has_skip_ext (u_path p)"
    by (elim exE conjE)
  then have "\<exists>p. urlparse demo_env ''https://ex.com/a'' = Some p \<and> u_netloc p = ''ex.com''
          \<and> u_scheme p \<in> {''http'', ''https''} \<and> \<not> has_skip_ext (u_path p)"
    by (intro exI conjI)
  with d demo_extract show ?thesis by (intro conjI)
qed

section \<open>The session\<close>

lemma aenter_never_releases:
  "aenter G s = (r, s') \<Longrightarrow> \<exists>acq. trace s' = trace s @ map Acquire acq"
proof -
  assume a: "aenter G s = (r, s')"
  consider (none) "trace s' = trace s @ map Acquire []"
    | (one) "trace s' = trace s @ map Acquire [Playwright]"
    | (two) "trace s' = trace s @ map Acquire [Playwright, Browser]"
    | (three) "trace s' = trace s @ map Acquire [Playwright, Browser, Context]"
    using a by (auto simp: aenter_def Let_def split: if_splits)
  then show ?thesis by cases blast+
qed

text \<open>
  C4 does not hold of the code. \<^verbatim>\<open>__aenter__\<close> has no handler, and \<^verbatim>\<open>async with\<close> does
  not call \<^verbatim>\<open>__aexit__\<close> when \<^verbatim>\<open>__aenter__\<close> raises: when the browser does not launch the
  started playwright process is never stopped, and when the context does not open the
  browser and the playwright process stay as well. The order of release, when the session
  did open, is context, browser, playwright.
\<close>

theorem session_open_failure_leaks:
  "with_session no_launch_engine False
     = (Some LaunchFailed,
        \<lparr>s_playwright = True, s_browser = False, s_context = False,
         trace = [Acquire Playwright]\<rparr>)
   \<and> leaked [Acquire Playwright] = [Playwright]
   \<and> with_session no_context_engine False
     = (Some ContextFailed,
        \<lparr>s_playwright = True, s_browser = True, s_context = False,
         trace = [Acquire Playwright, Acquire Browser]\<rparr>)
   \<and> leaked [Acquire Playwright, Acquire Browser] = [Playwright, Browser]
   \<and> with_session good_engine True
     = (Some BodyFailed,
        \<lparr>s_playwright = True, s_browser = True, s_context = True,
         trace = [Acquire Playwright, Acquire Browser, Acquire Context,
                  Release Context, Release Browser, Release Playwright]\<rparr>)"
  by (simp add: with_session_def aenter_def aexit_def new_session_def leaked_def
      good_engine_def no_launch_engine_def no_context_engine_def)

section \<open>Sorting by date\<close>

lemma py_sorted_mset: "mset (py_sorted key r xs) = mset xs"
  by (simp add: py_sorted_def)

lemma py_sorted_reverse_sorted:
  "sorted (rev (map key (filter P (py_sorted key True xs))))"
proof -
  have "sorted (map key (sort_key key (rev xs)))" by simp
  then have "sorted (map key (filter P (sort_key key (rev xs))))"
    by (rule sorted_filter)
  then show ?thesis by (simp add: py_sorted_def rev_map rev_filter)
qed

lemma py_sorted_reverse_stable:
  "filter (\<lambda>x. P x \<and> key x = k) (py_sorted key True xs) = filter (\<lambda>x. P x \<and> key x = k) xs"
proof -
  have "filter (\<lambda>x. key x = k) (sort_key key (rev xs)) = filter (\<lambda>x. key x = k) (rev xs)"
    by (rule sort_key_stable)
  then have "rev (filter (\<lambda>x. key x = k) (sort_key key (rev xs)))
             = rev (filter (\<lambda>x. key x = k) (rev xs))"
    by (rule arg_cong)
  then have "filter (\<lambda>x. key x = k) (py_sorted key True xs) = filter (\<lambda>x. key x = k) xs"
    by (simp only: py_sorted_def rev_filter rev_rev_ident if_True)
  then have "filter P (filter (\<lambda>x. key x = k) (py_sorted key True xs))
             = filter P (filter (\<lambda>x. key x = k) xs)"
    by simp
  then show ?thesis by (simp add: conj_commute)
qed

lemma sorted_snd_of_constant_fst:
  fixes ks :: "('a::linorder \<times> 'b::linorder) list"
  assumes "sorted ks" and "\<forall>k\<in>set ks. fst k = c"
  shows "sorted (map snd ks)"
  using assms
proof (induction ks)
  case Nil
  then show ?case by simp
next
  case (Cons k ks)
  then show ?case by (auto simp: less_eq_prod_def)
qed


text \<open>
  C2, as the spec states it, fails on three counts. With \<^verbatim>\<open>descending=True\<close> an undated
  result gets the key \<^verbatim>\<open>9999-99-99\<close>, the largest, and \<^verbatim>\<open>reverse=True\<close> puts the
  largest first: the undated result comes before the dated one. The key has the URL as
  its second component, so equal dates are ordered by URL, descending, and so are the
  undated results; the input order decides only between equal URLs.
\<close>

theorem sort_by_date_counterexample:
  "sort_results_by_date [dated ''2024-01-01'' ''u2'', undated ''u1''] True
     = [undated ''u1'', dated ''2024-01-01'' ''u2'']
   \<and> sort_results_by_date [dated ''2024-01-01'' ''a'', dated ''2024-01-01'' ''b''] True
     = [dated ''2024-01-01'' ''b'', dated ''2024-01-01'' ''a'']
   \<and> sort_results_by_date [undated ''a'', undated ''b''] True = [undated ''b'', undated ''a'']"
  by code_simp

text \<open>
  C2, amended: \<^verbatim>\<open>sort_results_by_date\<close> with \<^verbatim>\<open>descending=True\<close> returns a permutation
  of its input in which the dated results are in descending order of (date, URL), the
  undated results are in descending order of URL, and results with the same date (or no
  date) and the same URL keep their input order. Where the undated results stand among
  the dated ones is not part of the statement.
\<close>

theorem sort_by_date_stable_desc:
  "mset (sort_results_by_date rs True) = mset rs
   \<and> sorted (rev (map (get_sort_key True)
                (filter (\<lambda>x. published_date x \<noteq> None) (sort_results_by_date rs True))))
   \<and> sorted (rev (map (\<lambda>x. snd (get_sort_key True x))
                (filter (\<lambda>x. published_date x = None) (sort_results_by_date rs True))))
   \<and> filter (\<lambda>x. published_date x \<noteq> None \<and> get_sort_key True x = k)
        (sort_results_by_date rs True)
     = filter (\<lambda>x. published_date x \<noteq> None \<and> get_sort_key True x = k) rs
   \<and> filter (\<lambda>x. published_date x = None \<and> get_sort_key True x = k)
        (sort_results_by_date rs True)
     = filter (\<lambda>x. published_date x = None \<and> get_sort_key True x = k) rs"
proof -
  let ?out = "sort_results_by_date rs True"
  let ?und = "filter (\<lambda>x. published_date x = None) ?out"
  have m: "mset ?out = mset rs"
    by (simp add: sort_results_by_date_def py_sorted_mset)
  have d: "sorted (rev (map (get_sort_key True) (filter (\<lambda>x. published_date x \<noteq> None) ?out)))"
    unfolding sort_results_by_date_def by (rule py_sorted_reverse_sorted)
  have "sorted (rev (map (get_sort_key True) ?und))"
    unfolding sort_results_by_date_def by (rule py_sorted_reverse_sorted)
  moreover have "\<forall>k\<in>set (rev (map (get_sort_key True) ?und)). fst k = ''9999-99-99''"
    by (auto simp: get_sort_key_def Let_def)
  ultimately have "sorted (map snd (rev (map (get_sort_key True) ?und)))"
    by (rule sorted_snd_of_constant_fst)
  then have u: "sorted (rev (map (\<lambda>x. snd (get_sort_key True x)) ?und))"
    by (simp add: rev_map comp_def)
  have s1: "filter (\<lambda>x. published_date x \<noteq> None \<and> get_sort_key True x = k) ?out
     = filter (\<lambda>x. published_date x \<noteq> None \<and> get_sort_key True x = k) rs"
    unfolding sort_results_by_date_def by (rule py_sorted_reverse_stable)
  have s2: "filter (\<lambda>x. published_date x = None \<and> get_sort_key True x = k) ?out
     = filter (\<lambda>x. published_date x = None \<and> get_sort_key True x = k) rs"
    unfolding sort_results_by_date_def by (rule py_sorted_reverse_stable)
  from m d u s1 s2 show ?thesis by (intro conjI)
qed

theorem sort_by_date_stable_desc_witness:
  "mset (sort_results_by_date
           [dated ''2023-05-01'' ''a'', undated ''x'', dated ''2024-01-01'' ''a'',
            dated ''2024-01-01'' ''b'', undated ''y''] True)
     = mset [dated ''2023-05-01'' ''a'', undated ''x'', dated ''2024-01-01'' ''a'',
             dated ''2024-01-01'' ''b'', undated ''y'']
   \<and> filter (\<lambda>x. published_date x \<noteq> None)
        (sort_results_by_date
           [dated ''2023-05-01'' ''a'', undated ''x'', dated ''2024-01-01'' ''a'',
            dated ''2024-01-01'' ''b'', undated ''y''] True)
     = [dated ''2024-01-01'' ''b'', dated ''2024-01-01'' ''a'', dated ''2023-05-01'' ''a'']
   \<and> filter (\<lambda>x. published_date x = None)
        (sort_results_by_date
           [dated ''2023-05-01'' ''a'', undated ''x'', dated ''2024-01-01'' ''a'',
            dated ''2024-01-01'' ''b'', undated ''y''] True)
     = [undated ''y'', undated ''x'']"
proof -
  have "filter (\<lambda>x. published_date x \<noteq> None)
        (sort_results_by_date
           [dated ''2023-05-01'' ''a'', undated ''x'', dated ''2024-01-01'' ''a'',
            dated ''2024-01-01'' ''b'', undated ''y''] True)
     = [dated ''2024-01-01'' ''b'', dated ''2024-01-01'' ''a'', dated ''2023-05-01'' ''a'']"
    by code_simp
  moreover have "filter (\<lambda>x. published_date x = None)
        (sort_results_by_date
           [dated ''2023-05-01'' ''a'', undated ''x'', dated ''2024-01-01'' ''a'',
            dated ''2024-01-01'' ''b'', undated ''y''] True)
     = [undated ''y'', undated ''x'']"
    by code_simp
  moreover have "mset (sort_results_by_date
           [dated ''2023-05-01'' ''a'', undated ''x'', dated ''2024-01-01'' ''a'',
            dated ''2024-01-01'' ''b'', undated ''y''] True)
     = mset [dated ''2023-05-01'' ''a'', undated ''x'', dated ''2024-01-01'' ''a'',
             dated ''2024-01-01'' ''b'', undated ''y'']"
    using sort_by_date_stable_desc [of "[dated ''2023-05-01'' ''a'', undated ''x'',
       dated ''2024-01-01'' ''a'', dated ''2024-01-01'' ''b'', undated ''y'']" "([], [])"]
    by (rule conjunct1)
  ultimately show ?thesis by (intro conjI)
qed

section \<open>Heading repair is idempotent\<close>

lemma split_nl_no_newline: "CHR 0x0A \<notin> set l \<Longrightarrow> split_nl l = [l]"
  by (induction l) auto

lemma split_nl_append:
  "CHR 0x0A \<notin> set l \<Longrightarrow> split_nl (l @ CHR 0x0A # s) = l # split_nl s"
  by (induction l) auto

lemma split_nl_join:
  "ls \<noteq> [] \<Longrightarrow> \<forall>l\<in>set ls. CHR 0x0A \<notin> set l \<Longrightarrow> split_nl (join [CHR 0x0A] ls) = ls"
proof (induction "[CHR 0x0A]" ls rule: join.induct)
  case 1
  then show ?case by simp
next
  case (2 x)
  then show ?case by (simp add: split_nl_no_newline)
next
  case (3 x y ys)
  then show ?case by (simp add: split_nl_append)
qed

lemma split_nl_lines: "split_nl s \<noteq> [] \<and> (\<forall>l\<in>set (split_nl s). CHR 0x0A \<notin> set l)"
  by (induction s) (auto split: list.splits)

lemma set_strip: "set (strip s) \<subseteq> set s"
proof -
  have "set (strip s) \<subseteq> set (dropWhile is_space s)"
    unfolding strip_def using set_dropWhileD by fastforce
  also have "\<dots> \<subseteq> set s" using set_dropWhileD by fastforce
  finally show ?thesis .
qed

lemma set_join: "set (join sep xs) \<subseteq> set sep \<union> \<Union> (set ` set xs)"
  by (induction sep xs rule: join.induct) auto

lemma take_fragments_from_lines:
  "\<forall>f\<in>set (fst (take_fragments ls)). \<exists>l\<in>set ls. set f \<subseteq> set l"
proof (induction ls)
  case Nil
  then show ?case by simp
next
  case (Cons l ls)
  show ?case
  proof (cases "stops_heading (strip l)")
    case True
    then show ?thesis by simp
  next
    case False
    then have "fst (take_fragments (l # ls)) = strip l # fst (take_fragments ls)"
      by (simp add: Let_def split: prod.splits)
    with Cons set_strip [of l] show ?thesis by auto
  qed
qed

lemma take_fragments_chars:
  "\<Union> (set ` set (fst (take_fragments ls))) \<subseteq> \<Union> (set ` set ls)"
  using take_fragments_from_lines [of ls] by blast

lemma take_fragments_rest_subset: "set (snd (take_fragments ls)) \<subseteq> set ls"
  by (induction ls) (auto simp: Let_def split: prod.splits)

lemma heading_match_level:
  "heading_match line = Some level \<Longrightarrow> level \<noteq> [] \<and> set level \<subseteq> {CHR ''#''}"
  by (auto simp: heading_match_def Let_def split: if_splits dest: set_takeWhileD)

lemma fix_lines_chars:
  "\<Union> (set ` set (fix_lines ls)) \<subseteq> \<Union> (set ` set ls) \<union> {CHR ''#'', CHR '' ''}"
proof (induction ls rule: fix_lines.induct)
  case 1
  then show ?case by simp
next
  case (2 line rest)
  show ?case
  proof (cases "heading_match line")
    case None
    with 2 show ?thesis by auto
  next
    case (Some level)
    show ?thesis
    proof (cases "fst (take_fragments rest) = []")
      case True
      with 2 Some show ?thesis by auto
    next
      case False
      from heading_match_level [OF Some] have lv: "set level \<subseteq> {CHR ''#''}" by simp
      have j: "set (join '' '' (fst (take_fragments rest)))
               \<subseteq> {CHR '' ''} \<union> \<Union> (set ` set rest)"
        using set_join [of "'' ''" "fst (take_fragments rest)"] take_fragments_chars [of rest]
        by auto
      have r: "\<Union> (set ` set (fix_lines (snd (take_fragments rest))))
               \<subseteq> \<Union> (set ` set rest) \<union> {CHR ''#'', CHR '' ''}"
        using 2(2) [OF Some False] take_fragments_rest_subset [of rest] by blast
      from Some False lv j r show ?thesis by auto
    qed
  qed
qed

lemma fix_lines_nonempty: "ls \<noteq> [] \<Longrightarrow> fix_lines ls \<noteq> []"
  by (cases ls) (auto split: option.splits)

lemma strip_nonempty_hd: "strip s \<noteq> [] \<Longrightarrow> \<not> is_space (hd (strip s))"
proof -
  assume ne: "strip s \<noteq> []"
  let ?d = "dropWhile is_space s"
  have d: "?d \<noteq> []"
  proof
    assume "?d = []"
    then have "rev (dropWhile is_space (rev ?d)) = rev (dropWhile is_space (rev []))"
      by (rule arg_cong)
    then have "strip s = []" by (simp only: strip_def dropWhile.simps rev.simps)
    with ne show False by simp
  qed
  then have h: "\<not> is_space (hd ?d)" by (rule hd_dropWhile)
  have "strip s = rev (dropWhile is_space (rev ?d))" by (simp add: strip_def)
  then obtain k where "strip s = take k ?d"
    by (metis dropWhile_eq_drop rev_drop rev_rev_ident rev_take length_rev)
  with ne have "hd (strip s) = hd ?d" by (cases k; cases ?d) auto
  with h show ?thesis by simp
qed

lemma strip_keeps_head: "\<not> is_space c \<Longrightarrow> hd (strip (c # s)) = c \<and> strip (c # s) \<noteq> []"
proof -
  assume c: "\<not> is_space c"
  then have "strip (c # s) = rev (dropWhile is_space (rev s @ [c]))" by (simp add: strip_def)
  also have "\<dots> = rev (dropWhile is_space (rev s) @ [c]) \<or> \<dots> = [c]"
    using c by (simp add: dropWhile_append)
  finally show ?thesis by auto
qed

lemma hash_not_space: "\<not> is_space (CHR ''#'')"
  by (simp add: is_space_def)

lemma take_fragments_fst_nil:
  "fst (take_fragments ls) = [] \<longleftrightarrow> (ls = [] \<or> stops_heading (strip (hd ls)))"
  by (cases ls) (auto simp: Let_def split: prod.splits)

lemma take_fragments_first:
  "fst (take_fragments ls) \<noteq> [] \<Longrightarrow>
   \<exists>f fs. fst (take_fragments ls) = f # fs \<and> f \<noteq> [] \<and> \<not> is_space (hd f)"
proof (cases ls)
  case Nil
  assume "fst (take_fragments ls) \<noteq> []"
  with Nil show ?thesis by simp
next
  case (Cons l rest)
  assume ne: "fst (take_fragments ls) \<noteq> []"
  with Cons have ns: "\<not> stops_heading (strip l)" by (auto simp: Let_def)
  then have "strip l \<noteq> []" by (auto simp: stops_heading_def)
  with strip_nonempty_hd have "\<not> is_space (hd (strip l))" by blast
  with Cons ns \<open>strip l \<noteq> []\<close> show ?thesis by (auto simp: Let_def split: prod.splits)
qed

lemma joined_heading_not_bare:
  assumes "heading_match line = Some level" and "fst (take_fragments rest) \<noteq> []"
  shows "heading_match (level @ '' '' @ join '' '' (fst (take_fragments rest))) = None"
proof -
  from heading_match_level [OF assms(1)] have lv: "set level \<subseteq> {CHR ''#''}" by simp
  from take_fragments_first [OF assms(2)] obtain f fs where
    f: "fst (take_fragments rest) = f # fs" "f \<noteq> []" "\<not> is_space (hd f)" by blast
  have "hd f \<in> set (join '' '' (f # fs))" using f(2) by (cases fs; cases f) auto
  with f(1) have mem: "hd f \<in> set (join '' '' (fst (take_fragments rest)))" by simp
  let ?J = "level @ '' '' @ join '' '' (fst (take_fragments rest))"
  have tw: "dropWhile (\<lambda>c. c = CHR ''#'') ?J = '' '' @ join '' '' (fst (take_fragments rest))"
    using lv by (induction level) auto
  have "\<not> list_all is_space ('' '' @ join '' '' (fst (take_fragments rest)))"
    using mem f(3) by (auto simp: list_all_iff)
  with tw show ?thesis by (simp add: heading_match_def Let_def)
qed

lemma stops_heading_hash: "stops_heading (strip (CHR ''#'' # s))"
  using strip_keeps_head [OF hash_not_space, of s]
  by (cases "strip (CHR ''#'' # s)") (auto simp: stops_heading_def startswith_def)

lemma fix_lines_head_stops:
  assumes "ls \<noteq> []" and "stops_heading (strip (hd ls))"
  shows "fix_lines ls \<noteq> [] \<and> stops_heading (strip (hd (fix_lines ls)))"
proof (cases ls)
  case Nil
  with assms show ?thesis by simp
next
  case (Cons line rest)
  show ?thesis
  proof (cases "heading_match line")
    case None
    with Cons assms show ?thesis by simp
  next
    case (Some level)
    from heading_match_level [OF Some] obtain lv where "level = CHR ''#'' # lv"
      by (cases level) auto
    with Cons Some assms stops_heading_hash show ?thesis by auto
  qed
qed

lemma fix_lines_no_new_fragments:
  "fst (take_fragments ls) = [] \<Longrightarrow> fst (take_fragments (fix_lines ls)) = []"
proof (cases "ls = []")
  case True
  then show ?thesis by simp
next
  case False
  assume "fst (take_fragments ls) = []"
  with False have "stops_heading (strip (hd ls))" by (simp add: take_fragments_fst_nil)
  from fix_lines_head_stops [OF False this] show ?thesis by (simp add: take_fragments_fst_nil)
qed

lemma fix_lines_idem: "fix_lines (fix_lines ls) = fix_lines ls"
proof (induction ls rule: fix_lines.induct)
  case 1
  then show ?case by simp
next
  case (2 line rest)
  show ?case
  proof (cases "heading_match line")
    case None
    with 2 show ?thesis by simp
  next
    case (Some level)
    show ?thesis
    proof (cases "fst (take_fragments rest) = []")
      case True
      with 2 Some fix_lines_no_new_fragments [OF True] show ?thesis by simp
    next
      case False
      with 2 Some joined_heading_not_bare [OF Some False] show ?thesis by simp
    qed
  qed
qed

text \<open>
  C8. Applying \<^verbatim>\<open>fix_heading_linebreaks\<close> twice gives the same text as applying it once,
  for every text.
\<close>

theorem fix_heading_linebreaks_idempotent:
  "fix_heading_linebreaks (fix_heading_linebreaks x) = fix_heading_linebreaks x"
proof -
  let ?ls = "fix_lines (split_nl x)"
  from split_nl_lines [of x] have ne: "?ls \<noteq> []" by (simp add: fix_lines_nonempty)
  have "\<Union> (set ` set ?ls) \<subseteq> \<Union> (set ` set (split_nl x)) \<union> {CHR ''#'', CHR '' ''}"
    by (rule fix_lines_chars)
  with split_nl_lines [of x] have "\<forall>l\<in>set ?ls. CHR 0x0A \<notin> set l" by auto
  with ne have "split_nl (join [CHR 0x0A] ?ls) = ?ls" by (rule split_nl_join)
  then show ?thesis by (simp add: fix_heading_linebreaks_def fix_lines_idem)
qed

theorem fix_heading_linebreaks_idempotent_witness:
  "fix_heading_linebreaks
     [CHR ''#'', CHR 0x0A, CHR ''C'', CHR ''o'', CHR 0x0A, CHR ''G'', CHR 0x0A, CHR 0x0A,
      CHR ''B'', CHR ''.'']
   = [CHR ''#'', CHR '' '', CHR ''C'', CHR ''o'', CHR '' '', CHR ''G'', CHR 0x0A, CHR 0x0A,
      CHR ''B'', CHR ''.'']
   \<and> fix_heading_linebreaks
       [CHR ''#'', CHR '' '', CHR ''C'', CHR ''o'', CHR '' '', CHR ''G'', CHR 0x0A, CHR 0x0A,
        CHR ''B'', CHR ''.'']
     = [CHR ''#'', CHR '' '', CHR ''C'', CHR ''o'', CHR '' '', CHR ''G'', CHR 0x0A, CHR 0x0A,
        CHR ''B'', CHR ''.'']"
proof -
  have e: "fix_heading_linebreaks
     [CHR ''#'', CHR 0x0A, CHR ''C'', CHR ''o'', CHR 0x0A, CHR ''G'', CHR 0x0A, CHR 0x0A,
      CHR ''B'', CHR ''.'']
   = [CHR ''#'', CHR '' '', CHR ''C'', CHR ''o'', CHR '' '', CHR ''G'', CHR 0x0A, CHR 0x0A,
      CHR ''B'', CHR ''.'']"
    by code_simp
  from fix_heading_linebreaks_idempotent
    [of "[CHR ''#'', CHR 0x0A, CHR ''C'', CHR ''o'', CHR 0x0A, CHR ''G'', CHR 0x0A, CHR 0x0A,
          CHR ''B'', CHR ''.'']"]
  show ?thesis unfolding e by (simp add: e)
qed

section \<open>Citation numbering\<close>

lemma first_seen_snoc:
  "first_seen (xs @ [u]) = (if u \<in> set xs then first_seen xs else first_seen xs @ [u])"
  by (simp add: first_seen_def)

lemma first_seen_set: "set (first_seen xs) = set xs"
  by (simp add: first_seen_def)

lemma first_seen_distinct: "distinct (first_seen xs)"
  by (simp add: first_seen_def)

lemma numbered_snoc: "numbered (ks @ [u]) = numbered ks @ [(u, Suc (length ks))]"
  by (simp add: numbered_def)

lemma numbered_keys: "map fst (numbered ks) = ks"
  by (simp add: numbered_def)

lemma numbered_values: "map snd (numbered ks) = [1..<Suc (length ks)]"
  by (simp add: numbered_def map_Suc_upt del: upt_Suc)

lemma map_of_numbered_None: "map_of (numbered ks) u = None \<longleftrightarrow> u \<notin> set ks"
  using numbered_keys [of ks] by (metis map_of_eq_None_iff set_map)

text \<open>
  The invariant of the scan: after the links \<open>pre\<close>, the dictionary numbers the distinct
  targets seen so far, in the order they were first seen.
\<close>

lemma replace_link_state:
  "\<not> startswith ''#'' u \<Longrightarrow>
   snd (replace_link (Link vt u) st)
   = (if map_of (urls st) u = None
      then \<lparr>urls = urls st @ [(u, counter st + 1)], counter = counter st + 1\<rparr>
      else st)"
  by (simp add: Let_def)

lemma replace_link_table:
  assumes "urls st = numbered (first_seen pre)" and "counter st = length (first_seen pre)"
  shows "urls (snd (replace_link t st)) = numbered (first_seen (pre @ cited_urls [t]))
       \<and> counter (snd (replace_link t st)) = length (first_seen (pre @ cited_urls [t]))"
proof (cases t)
  case (Lit c)
  with assms show ?thesis by (simp add: cited_urls_def)
next
  case (Link vt u)
  show ?thesis
  proof (cases "startswith ''#'' u")
    case True
    with Link assms show ?thesis by (simp add: cited_urls_def)
  next
    case False
    then have c: "cited_urls [t] = [u]" using Link by (simp add: cited_urls_def)
    have m: "map_of (urls st) u = None \<longleftrightarrow> u \<notin> set pre"
      using assms(1) by (simp add: map_of_numbered_None first_seen_set)
    show ?thesis
    proof (cases "u \<in> set pre")
      case True
      with m have "snd (replace_link t st) = st"
        unfolding Link replace_link_state [OF False] by simp
      with assms True show ?thesis unfolding c by (simp add: first_seen_snoc)
    next
      case nin: False
      with m have "snd (replace_link t st)
           = \<lparr>urls = urls st @ [(u, counter st + 1)], counter = counter st + 1\<rparr>"
        unfolding Link replace_link_state [OF False] by simp
      with assms nin show ?thesis unfolding c
        by (simp add: first_seen_snoc numbered_snoc)
    qed
  qed
qed

lemma sub_links_table:
  "urls st = numbered (first_seen pre) \<Longrightarrow> counter st = length (first_seen pre) \<Longrightarrow>
   urls (snd (sub_links toks st)) = numbered (first_seen (pre @ cited_urls toks))
   \<and> counter (snd (sub_links toks st)) = length (first_seen (pre @ cited_urls toks))"
proof (induction toks arbitrary: st pre)
  case Nil
  then show ?case by (simp add: cited_urls_def)
next
  case (Cons t ts)
  let ?st1 = "snd (replace_link t st)"
  from replace_link_table [OF Cons.prems]
  have a: "urls ?st1 = numbered (first_seen (pre @ cited_urls [t]))"
    and b: "counter ?st1 = length (first_seen (pre @ cited_urls [t]))" by simp_all
  have s: "snd (sub_links (t # ts) st) = snd (sub_links ts ?st1)"
    by (simp split: prod.splits)
  have c: "cited_urls (t # ts) = cited_urls [t] @ cited_urls ts"
    by (simp add: cited_urls_def)
  from Cons.IH [OF a b] show ?case unfolding s c by simp
qed

lemma replace_link_extends: "prefix (urls st) (urls (snd (replace_link t st)))"
proof (cases t)
  case (Lit c)
  then show ?thesis by simp
next
  case (Link vt u)
  then show ?thesis by (simp add: Let_def)
qed

lemma sub_links_extends: "prefix (urls st) (urls (snd (sub_links toks st)))"
proof (induction toks arbitrary: st)
  case Nil
  then show ?case by simp
next
  case (Cons t ts)
  have "snd (sub_links (t # ts) st) = snd (sub_links ts (snd (replace_link t st)))"
    by (simp split: prod.splits)
  with replace_link_extends [of st t] Cons [of "snd (replace_link t st)"]
  show ?case by (metis prefix_order.order_trans)
qed

lemma map_of_prefix:
  "prefix xs ys \<Longrightarrow> map_of xs u = Some n \<Longrightarrow> map_of ys u = Some n"
  by (auto simp: prefix_def map_add_Some_iff)

text \<open>What a numbered link is replaced with, given the number of its target.\<close>

lemma replace_link_known:
  assumes "\<not> startswith ''#'' u" and "map_of (urls st) u = Some n"
  shows "fst (replace_link (Link vt u) st)
         = (if strip vt \<noteq> [] then vt @ '' ['' @ str_nat n @ '']''
            else ''['' @ str_nat n @ '']'')"
  using assms by (simp add: Let_def)

lemma replace_link_assigns:
  assumes "\<not> startswith ''#'' u"
  shows "\<exists>n. map_of (urls (snd (replace_link (Link vt u) st))) u = Some n
           \<and> fst (replace_link (Link vt u) st)
             = (if strip vt \<noteq> [] then vt @ '' ['' @ str_nat n @ '']''
                else ''['' @ str_nat n @ '']'')"
proof (cases "map_of (urls st) u")
  case None
  with assms show ?thesis by (simp add: Let_def map_add_def)
next
  case (Some n)
  with assms show ?thesis by (simp add: Let_def)
qed

lemma replace_link_later:
  assumes "prefix (urls (snd (replace_link t st))) (urls final)"
  shows "fst (replace_link t st) = fst (replace_link t final)"
proof (cases t)
  case (Lit c)
  then show ?thesis by simp
next
  case (Link vt u)
  show ?thesis
  proof (cases "startswith ''#'' u")
    case True
    with Link show ?thesis by simp
  next
    case False
    from replace_link_assigns [OF False, of vt st] obtain n where
      n: "map_of (urls (snd (replace_link (Link vt u) st))) u = Some n"
      and out: "fst (replace_link (Link vt u) st)
             = (if strip vt \<noteq> [] then vt @ '' ['' @ str_nat n @ '']''
                else ''['' @ str_nat n @ '']'')"
      by blast
    from map_of_prefix [OF assms [unfolded Link] n]
    have "map_of (urls final) u = Some n" .
    from replace_link_known [OF False this, of vt] out Link show ?thesis by simp
  qed
qed

lemma sub_links_output:
  "fst (sub_links toks st)
   = concat (map (\<lambda>t. fst (replace_link t (snd (sub_links toks st)))) toks)"
proof -
  have "prefix (urls (snd (sub_links toks st))) (urls final) \<Longrightarrow>
        fst (sub_links toks st) = concat (map (\<lambda>t. fst (replace_link t final)) toks)"
    for final
  proof (induction toks arbitrary: st)
    case Nil
    then show ?case by simp
  next
    case (Cons t ts)
    let ?st1 = "snd (replace_link t st)"
    have s: "snd (sub_links (t # ts) st) = snd (sub_links ts ?st1)"
      and f: "fst (sub_links (t # ts) st) = fst (replace_link t st) @ fst (sub_links ts ?st1)"
      by (simp_all split: prod.splits)
    from Cons.prems s have p: "prefix (urls (snd (sub_links ts ?st1))) (urls final)" by simp
    from sub_links_extends [of ?st1 ts] p have "prefix (urls ?st1) (urls final)"
      by (metis prefix_order.order_trans)
    then have "fst (replace_link t st) = fst (replace_link t final)"
      by (rule replace_link_later)
    with Cons.IH [OF p] f show ?case by simp
  qed
  then show ?thesis by simp
qed

lemma sub_links_final:
  "snd (sub_links toks \<lparr>urls = [], counter = 0\<rparr>)
   = \<lparr>urls = numbered (first_seen (cited_urls toks)),
      counter = length (first_seen (cited_urls toks))\<rparr>"
proof -
  have "urls \<lparr>urls = [], counter = 0\<rparr> = numbered (first_seen ([] :: string list))"
    and "counter \<lparr>urls = [], counter = 0\<rparr> = length (first_seen ([] :: string list))"
    by (simp_all add: numbered_def first_seen_def)
  from sub_links_table [OF this, of toks] show ?thesis by simp
qed

lemma numbered_sorted: "sort_key snd (numbered ks) = numbered ks"
  by (rule sort_key_id_if_sorted) (simp add: numbered_values del: upt_Suc)

lemma numbered_Nil: "numbered ks = [] \<longleftrightarrow> ks = []"
  by (cases ks) (simp_all add: numbered_def upt_conv_Cons del: upt_Suc)

lemma add_citations_spec:
  "add_citations markdown =
     (if first_seen (cited_urls (find_links None markdown)) = [] then (markdown, [])
      else (concat (map (\<lambda>t. fst (replace_link t
                \<lparr>urls = numbered (first_seen (cited_urls (find_links None markdown))),
                 counter = length (first_seen (cited_urls (find_links None markdown)))\<rparr>))
              (find_links None markdown)),
            join [CHR 0x0A]
              ([[], ''## References'', []]
               @ map reference_line
                   (numbered (first_seen (cited_urls (find_links None markdown)))))))"
proof (cases "markdown = []")
  case True
  then show ?thesis by (simp add: add_citations_def cited_urls_def first_seen_def)
next
  case False
  let ?toks = "find_links None markdown"
  let ?init = "\<lparr>urls = [], counter = 0\<rparr>"
  obtain cited st where r: "sub_links ?toks ?init = (cited, st)"
    by (cases "sub_links ?toks ?init")
  from sub_links_final [of ?toks] r
  have st: "st = \<lparr>urls = numbered (first_seen (cited_urls ?toks)),
                  counter = length (first_seen (cited_urls ?toks))\<rparr>" by simp
  from sub_links_output [of ?toks ?init] r
  have c: "cited = concat (map (\<lambda>t. fst (replace_link t st)) ?toks)" by simp
  from False r show ?thesis
    unfolding add_citations_def c
    by (simp add: st numbered_sorted numbered_Nil)
qed

lemma add_citations_scenario:
  "add_citations ''[A](https://a.com) [B](https://b.com) [C](https://a.com)''
   = (''A [1] B [2] C [1]'',
      [CHR 0x0A] @ ''## References'' @ [CHR 0x0A, CHR 0x0A] @ ''[1] https://a.com''
        @ [CHR 0x0A] @ ''[2] https://b.com'')"
  by code_simp

text \<open>
  The numbering, for every markdown text, with \<open>F\<close> the distinct targets of the matches
  whose target is not a fragment, in the order they are first met: the dictionary built
  by the scan numbers \<open>F\<close> with 1, 2, ... in that order; every match, first or later, is
  replaced by the text that its target's number in that dictionary gives (\<^verbatim>\<open>text [N]\<close>,
  or \<^verbatim>\<open>[N]\<close> when the text is blank); and the references block has one line
  \<^verbatim>\<open>[N] URL\<close> per element of \<open>F\<close>, in the order of the numbers. Links to
  \<^verbatim>\<open>https://a.com\<close>, \<^verbatim>\<open>https://b.com\<close>, \<^verbatim>\<open>https://a.com\<close> give the markers 1, 2, 1
  and the two reference lines.
\<close>

lemma numbering_of_matches:
  "add_citations markdown =
     (if first_seen (cited_urls (find_links None markdown)) = [] then (markdown, [])
      else (concat (map (\<lambda>t. fst (replace_link t
                \<lparr>urls = numbered (first_seen (cited_urls (find_links None markdown))),
                 counter = length (first_seen (cited_urls (find_links None markdown)))\<rparr>))
              (find_links None markdown)),
            join [CHR 0x0A]
              ([[], ''## References'', []]
               @ map reference_line
                   (numbered (first_seen (cited_urls (find_links None markdown)))))))
   \<and> map fst (numbered (first_seen (cited_urls (find_links None markdown))))
       = first_seen (cited_urls (find_links None markdown))
   \<and> map snd (numbered (first_seen (cited_urls (find_links None markdown))))
       = [1..<Suc (length (first_seen (cited_urls (find_links None markdown))))]
   \<and> distinct (first_seen (cited_urls (find_links None markdown)))
   \<and> set (first_seen (cited_urls (find_links None markdown)))
       = set (cited_urls (find_links None markdown))
   \<and> (\<not> startswith ''#'' u
        \<and> map_of (numbered (first_seen (cited_urls (find_links None markdown)))) u = Some n
      \<longrightarrow> fst (replace_link (Link vt u)
                \<lparr>urls = numbered (first_seen (cited_urls (find_links None markdown))),
                 counter = length (first_seen (cited_urls (find_links None markdown)))\<rparr>)
          = (if strip vt \<noteq> [] then vt @ '' ['' @ str_nat n @ '']''
             else ''['' @ str_nat n @ '']''))
   \<and> add_citations ''[A](https://a.com) [B](https://b.com) [C](https://a.com)''
       = (''A [1] B [2] C [1]'',
          [CHR 0x0A] @ ''## References'' @ [CHR 0x0A, CHR 0x0A] @ ''[1] https://a.com''
            @ [CHR 0x0A] @ ''[2] https://b.com'')"
proof (intro conjI impI)
  show "add_citations markdown =
     (if first_seen (cited_urls (find_links None markdown)) = [] then (markdown, [])
      else (concat (map (\<lambda>t. fst (replace_link t
                \<lparr>urls = numbered (first_seen (cited_urls (find_links None markdown))),
                 counter = length (first_seen (cited_urls (find_links None markdown)))\<rparr>))
              (find_links None markdown)),
            join [CHR 0x0A]
              ([[], ''## References'', []]
               @ map reference_line
                   (numbered (first_seen (cited_urls (find_links None markdown)))))))"
    by (rule add_citations_spec)
next
  assume "\<not> startswith ''#'' u
        \<and> map_of (numbered (first_seen (cited_urls (find_links None markdown)))) u = Some n"
  then show "fst (replace_link (Link vt u)
                \<lparr>urls = numbered (first_seen (cited_urls (find_links None markdown))),
                 counter = length (first_seen (cited_urls (find_links None markdown)))\<rparr>)
          = (if strip vt \<noteq> [] then vt @ '' ['' @ str_nat n @ '']''
             else ''['' @ str_nat n @ '']'')"
    by (intro replace_link_known) simp_all
qed (simp_all only: numbered_keys numbered_values first_seen_distinct first_seen_set
       add_citations_scenario)

text \<open>
  Which links are matches. The lookbehind keeps an image from being one: a \<^verbatim>\<open>[\<close> that
  directly follows \<^verbatim>\<open>!\<close> is copied, whatever comes after it.
\<close>

lemma find_links_after_bang:
  "find_links (Some (CHR ''!'')) (CHR ''['' # cs) = Lit (CHR ''['') # find_links (Some (CHR ''['')) cs"
  by simp

lemma find_links_image:
  "find_links prev (CHR ''!'' # CHR ''['' # cs)
   = Lit (CHR ''!'') # Lit (CHR ''['') # find_links (Some (CHR ''['')) cs"
  by simp

text \<open>
  C3. The numbers go to the targets of the matches, and a match is not always a link
  that is not an image. In \<^verbatim>\<open>[![alt](i.png)](https://o.com)\<close>, a link around an image,
  the pattern matches at the outer \<^verbatim>\<open>[\<close>, which no \<^verbatim>\<open>!\<close> precedes; group 1 runs to the
  first \<^verbatim>\<open>]\<close> and group 2 is the target of the image. So the scan has one match, with
  text \<^verbatim>\<open>![alt\<close> and target \<^verbatim>\<open>i.png\<close>: the image's target gets number 1 and the only
  reference line, the image is rewritten, and the target of the link,
  \<^verbatim>\<open>https://o.com\<close>, gets no number. An image that stands alone is left as it is and
  gets no number, as the comment on the pattern says of images: in
  \<^verbatim>\<open>![alt](i.png) [L](https://o.com)\<close> the number 1 goes to \<^verbatim>\<open>https://o.com\<close>.
\<close>

theorem nested_image_target_numbered:
  "find_links None ''[![alt](i.png)](https://o.com)''
     = Link ''![alt'' ''i.png'' # map Lit ''](https://o.com)''
   \<and> add_citations ''[![alt](i.png)](https://o.com)''
     = (''![alt [1]](https://o.com)'',
        [CHR 0x0A] @ ''## References'' @ [CHR 0x0A, CHR 0x0A] @ ''[1] i.png'')
   \<and> add_citations ''![alt](i.png) [L](https://o.com)''
     = (''![alt](i.png) L [1]'',
        [CHR 0x0A] @ ''## References'' @ [CHR 0x0A, CHR 0x0A] @ ''[1] https://o.com'')"
  by code_simp

section \<open>A second pass of the citation engine\<close>

lemma cited_urls_Lit: "cited_urls (map Lit s) = []"
  by (induction s) (simp_all add: cited_urls_def)

lemma references_nonempty: "join [CHR 0x0A] ([[], ''## References'', []] @ ls) \<noteq> []"
  by simp

lemma add_citations_noop_iff:
  "add_citations y = (y, []) \<longleftrightarrow> cited_urls (find_links None y) = []"
proof -
  have e: "first_seen (cited_urls (find_links None y)) = [] \<longleftrightarrow> cited_urls (find_links None y) = []"
    using first_seen_set [of "cited_urls (find_links None y)"] by (metis set_empty)
  show ?thesis
    unfolding add_citations_spec [of y] e
    using references_nonempty by (simp del: join.simps)
qed

text \<open>What a match is made of, and when the pattern matches at a position.\<close>

lemma no_joined_pieces_tl: "no_joined_pieces (a # ts) \<Longrightarrow> no_joined_pieces ts"
  by simp

lemma match_link_SomeD:
  assumes "match_link cs = Some (vt, u, rest)"
  shows "cs = vt @ '']('' @ u @ '')'' @ rest"
    and "CHR '']'' \<notin> set vt" and "CHR '')'' \<notin> set u" and "u \<noteq> []"
proof -
  let ?r1 = "dropWhile (\<lambda>c. c \<noteq> CHR '']'') cs"
  let ?r2 = "drop 2 ?r1"
  let ?r3 = "dropWhile (\<lambda>c. c \<noteq> CHR '')'') ?r2"
  from assms have vt: "vt = takeWhile (\<lambda>c. c \<noteq> CHR '']'') cs"
    and t2: "take 2 ?r1 = ''](''"
    and u: "u = takeWhile (\<lambda>c. c \<noteq> CHR '')'') ?r2"
    and r3: "?r3 \<noteq> []" and rest: "rest = tl ?r3" and ne: "u \<noteq> []"
    by (auto simp: match_link_def Let_def split: if_splits)
  show "u \<noteq> []" by fact
  from vt show "CHR '']'' \<notin> set vt" by (auto dest: set_takeWhileD)
  from u show "CHR '')'' \<notin> set u" by (auto dest: set_takeWhileD)
  from r3 have "\<not> (hd ?r3 \<noteq> CHR '')'')" by (rule hd_dropWhile)
  with r3 rest have r3': "?r3 = CHR '')'' # rest" by (cases ?r3) simp_all
  have "cs = vt @ ?r1" by (simp add: vt)
  also have "?r1 = take 2 ?r1 @ ?r2" by simp
  also have "?r2 = u @ ?r3" by (simp add: u)
  finally show "cs = vt @ '']('' @ u @ '')'' @ rest" by (simp only: t2 r3' append_Cons append_Nil)
qed

lemma match_link_complete:
  assumes "CHR '']'' \<notin> set vt" and "CHR '')'' \<notin> set u" and "u \<noteq> []"
  shows "match_link (vt @ '']('' @ u @ '')'' @ rest) = Some (vt, u, rest)"
proof -
  let ?P = "\<lambda>c. c \<noteq> CHR '']''"
  let ?Q = "\<lambda>c. c \<noteq> CHR '')''"
  let ?cs = "vt @ CHR '']'' # CHR ''('' # u @ CHR '')'' # rest"
  from assms(1) have a: "\<forall>c\<in>set vt. ?P c" by auto
  from assms(2) have b: "\<forall>c\<in>set u. ?Q c" by auto
  from a have t1: "takeWhile ?P ?cs = vt"
    by (simp add: takeWhile_tail)
  from a have d1: "dropWhile ?P ?cs = CHR '']'' # CHR ''('' # u @ CHR '')'' # rest"
    by (simp add: dropWhile_append3)
  from b have t2: "takeWhile ?Q (u @ CHR '')'' # rest) = u"
    by (simp add: takeWhile_tail)
  from b have d2: "dropWhile ?Q (u @ CHR '')'' # rest) = CHR '')'' # rest"
    by (simp add: dropWhile_append3)
  have "match_link ?cs = Some (vt, u, rest)"
    unfolding match_link_def Let_def t1 d1 using assms(3) by (simp add: t2 d2)
  then show ?thesis by simp
qed

lemma match_link_Cons:
  "c \<noteq> CHR '']'' \<Longrightarrow> (match_link (c # cs) = None) = (match_link cs = None)"
  by (simp add: match_link_def Let_def)

lemma match_link_close_paren:
  "match_link (CHR '']'' # cs) \<noteq> None \<Longrightarrow> \<exists>cs'. cs = CHR ''('' # cs'"
  by (cases cs) (auto simp: match_link_def Let_def split: if_splits)

lemma match_link_close_iff:
  "match_link (CHR '']'' # CHR ''('' # cs) \<noteq> None
     \<longleftrightarrow> cs \<noteq> [] \<and> hd cs \<noteq> CHR '')'' \<and> CHR '')'' \<in> set cs"
proof -
  have a: "takeWhile (\<lambda>c. c \<noteq> CHR '')'') cs \<noteq> [] \<longleftrightarrow> cs \<noteq> [] \<and> hd cs \<noteq> CHR '')''"
    by (cases cs) simp_all
  have b: "dropWhile (\<lambda>c. c \<noteq> CHR '')'') cs \<noteq> [] \<longleftrightarrow> CHR '')'' \<in> set cs"
    by (auto simp: dropWhile_eq_Nil_conv)
  show ?thesis
    by (simp add: match_link_def Let_def a b)
qed

lemma paren_group_match: "paren_group s \<longleftrightarrow> match_link (CHR '']'' # s) \<noteq> None"
  by (cases s) (simp_all add: paren_group_def match_link_def Let_def)

lemma paren_group_iff:
  "paren_group s \<longleftrightarrow> (\<exists>u r. s = ''('' @ u @ '')'' @ r \<and> u \<noteq> [] \<and> CHR '')'' \<notin> set u)"
proof
  assume "paren_group s"
  then obtain vt u rest where m: "match_link (CHR '']'' # s) = Some (vt, u, rest)"
    unfolding paren_group_match by auto
  note d = match_link_SomeD [OF m]
  from d(1) d(2) have "vt = []" by (cases vt) auto
  with d show "\<exists>u r. s = ''('' @ u @ '')'' @ r \<and> u \<noteq> [] \<and> CHR '')'' \<notin> set u"
    by auto
next
  assume "\<exists>u r. s = ''('' @ u @ '')'' @ r \<and> u \<noteq> [] \<and> CHR '')'' \<notin> set u"
  then obtain u r where s: "s = ''('' @ u @ '')'' @ r" and u: "u \<noteq> []" "CHR '')'' \<notin> set u"
    by blast
  from match_link_complete [of "[]" u r] u have "match_link (CHR '']'' # s) = Some ([], u, r)"
    by (simp add: s)
  then show "paren_group s" by (simp add: paren_group_match)
qed

lemma match_link_prefix:
  "CHR '']'' \<notin> set r \<Longrightarrow> (match_link (r @ cs) = None) = (match_link cs = None)"
  by (induction r) (auto simp: match_link_Cons)

lemma source_find_links: "concat (map source (find_links p s)) = s"
proof (induction "length s" arbitrary: p s rule: less_induct)
  case less
  show ?case
  proof (cases s)
    case Nil
    then show ?thesis by simp
  next
    case (Cons c cs)
    show ?thesis
    proof (cases "c = CHR ''['' \<and> p \<noteq> Some (CHR ''!'') \<and> match_link cs \<noteq> None")
      case True
      then obtain vt u rest where m: "match_link cs = Some (vt, u, rest)" by auto
      from match_link_shorter [OF m] Cons have "length rest < length s" by simp
      then have "concat (map source (find_links (Some (CHR '')'')) rest)) = rest"
        by (rule less.hyps)
      with True m Cons match_link_SomeD(1) [OF m] show ?thesis by simp
    next
      case False
      with Cons have toks: "find_links p s = Lit c # find_links (Some c) cs"
        by (cases "match_link cs") auto
      have "concat (map source (find_links (Some c) cs)) = cs"
        by (rule less.hyps) (simp add: Cons)
      with toks Cons show ?thesis by simp
    qed
  qed
qed

lemma match_link_needs_close: "CHR '')'' \<notin> set cs \<Longrightarrow> match_link cs = None"
proof (rule ccontr)
  assume nc: "CHR '')'' \<notin> set cs" and "match_link cs \<noteq> None"
  then obtain vt u rest where "match_link cs = Some (vt, u, rest)" by auto
  from match_link_SomeD(1) [OF this] have "CHR '')'' \<in> set cs"
    by (metis in_set_conv_decomp append_Cons append_assoc)
  with nc show False by simp
qed

lemma find_links_no_close: "CHR '')'' \<notin> set s \<Longrightarrow> find_links prev s = map Lit s"
proof (induction s arbitrary: prev)
  case Nil
  then show ?case by simp
next
  case (Cons c cs)
  then have "match_link cs = None" by (simp add: match_link_needs_close)
  with Cons show ?case by simp
qed

lemma find_links_hd_Lit:
  "find_links p s = Lit c # ts \<Longrightarrow> \<exists>s'. s = c # s' \<and> ts = find_links (Some c) s'"
  by (cases s) (auto split: if_splits option.splits)

text \<open>
  The text that a pass returns is the concatenation of the replacements of the pieces of
  the scan. The target of a link of that text, after \<^verbatim>\<open>](\<close>, is not empty only if the
  same holds in the input; and the text begins with \<^verbatim>\<open>(\<close> only if its first piece is
  that character or a numbered link whose text begins with it.
\<close>

lemma render_Lit: "concat (map (\<lambda>t. fst (replace_link t S)) (map Lit s)) = s"
  by (induction s) simp_all

lemma render_url:
  assumes "match_link (CHR '']'' # CHR ''('' # concat (map (\<lambda>t. fst (replace_link t S)) (find_links p cs)))
             \<noteq> None"
  shows "match_link (CHR '']'' # CHR ''('' # cs) \<noteq> None"
proof (rule ccontr)
  let ?Y = "concat (map (\<lambda>t. fst (replace_link t S)) (find_links p cs))"
  assume "\<not> match_link (CHR '']'' # CHR ''('' # cs) \<noteq> None"
  then consider "cs = []" | cs' where "cs = CHR '')'' # cs'" | "CHR '')'' \<notin> set cs"
    unfolding match_link_close_iff by (cases cs) auto
  then have "\<not> (?Y \<noteq> [] \<and> hd ?Y \<noteq> CHR '')'' \<and> CHR '')'' \<in> set ?Y)"
  proof cases
    case 1
    then show ?thesis by simp
  next
    case 2
    then show ?thesis by simp
  next
    case 3
    then have "find_links p cs = map Lit cs" by (rule find_links_no_close)
    then have "?Y = cs" by (simp only: render_Lit)
    with 3 show ?thesis by simp
  qed
  with assms show False unfolding match_link_close_iff by simp
qed

lemma strip_Nil: "strip [] = []"
  by (simp add: strip_def)

lemma render_starts_paren:
  assumes "take 1 (fst (replace_link tok S) @ Z) = ''(''"
  shows "tok = Lit (CHR ''('') \<or> paren_text tok"
proof (cases tok)
  case (Lit c)
  with assms show ?thesis by simp
next
  case (Link vt u)
  show ?thesis
  proof (cases "startswith ''#'' u")
    case True
    with assms Link show ?thesis by simp
  next
    case False
    show ?thesis
    proof (cases "strip vt = []")
      case True
      with assms Link False show ?thesis by (simp add: Let_def)
    next
      case ne: False
      then have "vt \<noteq> []" using strip_Nil by auto
      with assms Link False ne have "take 1 vt = ''(''"
        by (cases vt) (simp_all add: Let_def)
      with Link False show ?thesis by (simp add: startswith_def)
    qed
  qed
qed

text \<open>
  A position where the pattern does not match in the input is not one where it matches in
  the returned text, when no pieces join.
\<close>

lemma rescan_no_match:
  assumes "no_joined_pieces (find_links p cs)"
    and "match_link (concat (map (\<lambda>t. fst (replace_link t S)) (find_links p cs))) \<noteq> None"
  shows "match_link cs \<noteq> None"
  using assms
proof (induction cs arbitrary: p)
  case Nil
  then show ?case by simp
next
  case (Cons c cs)
  let ?out = "\<lambda>t. fst (replace_link t S)"
  show ?case
  proof (cases "c = CHR ''['' \<and> p \<noteq> Some (CHR ''!'') \<and> match_link cs \<noteq> None")
    case True
    then show ?thesis by (simp add: match_link_Cons)
  next
    case False
    then have toks: "find_links p (c # cs) = Lit c # find_links (Some c) cs"
      by (cases "match_link cs") auto
    from Cons.prems(1) have safe: "no_joined_pieces (find_links (Some c) cs)"
      unfolding toks by (rule no_joined_pieces_tl)
    from Cons.prems(2) have m: "match_link (c # concat (map ?out (find_links (Some c) cs))) \<noteq> None"
      unfolding toks by simp
    show ?thesis
    proof (cases "c = CHR '']''")
      case ne: False
      with m have "match_link (concat (map ?out (find_links (Some c) cs))) \<noteq> None"
        by (simp add: match_link_Cons)
      with safe have "match_link cs \<noteq> None" by (rule Cons.IH)
      with ne show ?thesis by (simp add: match_link_Cons)
    next
      case True
      from m True obtain W where
        y: "concat (map ?out (find_links (Some c) cs)) = CHR ''('' # W"
        using match_link_close_paren by blast
      then obtain tok ts where tt: "find_links (Some c) cs = tok # ts"
        by (cases "find_links (Some c) cs") simp_all
      with y have "take 1 (?out tok @ concat (map ?out ts)) = ''(''" by simp
      then have "tok = Lit (CHR ''('') \<or> paren_text tok" by (rule render_starts_paren)
      moreover from Cons.prems(1) toks tt have "no_joined_pieces (Lit c # tok # ts)"
        by simp
      then have "\<not> joins (Lit (CHR '']'')) (tok # ts)"
        using True by simp
      ultimately have tok: "tok = Lit (CHR ''('')" by (auto simp: joins_def)
      with tt obtain cs' where cs: "cs = CHR ''('' # cs'"
        and ts: "ts = find_links (Some (CHR ''('')) cs'"
        using find_links_hd_Lit by blast
      from m tt tok ts True
      have "match_link (CHR '']'' # CHR ''('' # concat (map ?out (find_links (Some (CHR ''('')) cs')))
            \<noteq> None"
        by simp
      then have "match_link (CHR '']'' # CHR ''('' # cs') \<noteq> None" by (rule render_url)
      with True cs show ?thesis by simp
    qed
  qed
qed

text \<open>
  The replacement of a numbered link has one \<^verbatim>\<open>]\<close>, its last character; the scan copies
  it when the text does not go on with a parenthesised group.
\<close>

lemma scan_inert:
  assumes "CHR '']'' \<notin> set r" and "match_link (CHR '']'' # z) = None"
  shows "find_links p (r @ CHR '']'' # z) = map Lit (r @ '']'') @ find_links (Some (CHR '']'')) z"
  using assms(1)
proof (induction r arbitrary: p)
  case Nil
  then show ?case by simp
next
  case (Cons c r)
  then have "CHR '']'' \<notin> set r" by simp
  with assms(2) have n: "match_link (r @ CHR '']'' # z) = None"
    by (simp add: match_link_prefix)
  from Cons have ih: "find_links (Some c) (r @ CHR '']'' # z)
       = map Lit (r @ '']'') @ find_links (Some (CHR '']'')) z"
    by simp
  show ?case using n ih by auto
qed

lemma str_nat_no_bracket: "CHR '']'' \<notin> set (str_nat n)"
proof (induction n rule: str_nat.induct)
  case (1 n)
  have d: "char_of (48 + k) \<noteq> CHR '']''" if "k < 10" for k :: nat
  proof
    assume "char_of (48 + k) = CHR '']''"
    then have "(of_char (char_of (48 + k) :: char) :: nat) = of_char (CHR '']'')" by simp
    with that show False by simp
  qed
  show ?case
  proof (cases "n < 10")
    case True
    with d [of n] show ?thesis by (subst str_nat.simps) simp
  next
    case False
    with 1 d [of "n mod 10"] show ?thesis by (subst str_nat.simps) simp
  qed
qed

lemma replace_link_shape:
  assumes "\<not> startswith ''#'' u" and "CHR '']'' \<notin> set vt"
  shows "\<exists>r. fst (replace_link (Link vt u) S) = r @ '']'' \<and> CHR '']'' \<notin> set r"
proof (cases "strip vt = []")
  case True
  with assms show ?thesis
    by (auto simp: Let_def str_nat_no_bracket intro!: exI [of _ "''['' @ str_nat k" for k])
next
  case False
  with assms show ?thesis
    by (auto simp: Let_def str_nat_no_bracket intro!: exI [of _ "vt @ '' ['' @ str_nat k" for k])
qed

text \<open>
  The scan of the returned text, piece by piece of the scan of the input: a character
  outside a match is scanned as itself, a fragment link is matched again as the same link,
  and the replacement of a numbered link is copied character by character.
\<close>

lemma rescan:
  assumes "no_joined_pieces (find_links p s)"
    and "(q = Some (CHR ''!'')) = (p = Some (CHR ''!''))"
  shows "find_links q (concat (map (\<lambda>t. fst (replace_link t S)) (find_links p s)))
       = concat (map (\<lambda>t. if is_cited t then map Lit (fst (replace_link t S)) else [t])
                   (find_links p s))"
  using assms
proof (induction "length s" arbitrary: p q s rule: less_induct)
  case less
  let ?out = "\<lambda>t. fst (replace_link t S)"
  let ?relit = "\<lambda>t. if is_cited t then map Lit (fst (replace_link t S)) else [t]"
  show ?case
  proof (cases s)
    case Nil
    then show ?thesis by simp
  next
    case (Cons c cs)
    show ?thesis
    proof (cases "c = CHR ''['' \<and> p \<noteq> Some (CHR ''!'') \<and> match_link cs \<noteq> None")
      case True
      then obtain vt u rest where m: "match_link cs = Some (vt, u, rest)" by auto
      let ?ts = "find_links (Some (CHR '')'')) rest"
      let ?Z = "concat (map ?out ?ts)"
      from True m Cons have toks: "find_links p s = Link vt u # ?ts" by simp
      from match_link_shorter [OF m] Cons have len: "length rest < length s" by simp
      note d = match_link_SomeD [OF m]
      from less.prems(1) have safe: "no_joined_pieces ?ts"
        unfolding toks by (rule no_joined_pieces_tl)
      from True less.prems(2) have q: "q \<noteq> Some (CHR ''!'')" by simp
      show ?thesis
      proof (cases "startswith ''#'' u")
        case frag: True
        have ih: "find_links (Some (CHR '')'')) ?Z = concat (map ?relit ?ts)"
          by (rule less.hyps [OF len safe]) simp
        have ml: "match_link (vt @ '']('' @ u @ '')'' @ ?Z) = Some (vt, u, ?Z)"
          by (rule match_link_complete) (rule d)+
        have "find_links q (CHR ''['' # (vt @ '']('' @ u @ '')'' @ ?Z))
            = Link vt u # find_links (Some (CHR '')'')) ?Z"
          using q by (simp only: find_links.simps ml) simp
        with frag ih show ?thesis unfolding toks by simp
      next
        case cited: False
        from replace_link_shape [OF cited d(2)] obtain r where
          shape: "?out (Link vt u) = r @ '']''" and nb: "CHR '']'' \<notin> set r"
          by blast
        have nz: "match_link (CHR '']'' # ?Z) = None"
        proof (rule ccontr)
          assume a: "match_link (CHR '']'' # ?Z) \<noteq> None"
          from less.prems(1) have nj: "\<not> joins (Link vt u) ?ts"
            unfolding toks by simp
          from a obtain W where y: "?Z = CHR ''('' # W"
            using match_link_close_paren by blast
          then obtain tok ts' where tt: "?ts = tok # ts'"
            by (cases ?ts) simp_all
          with y have "take 1 (?out tok @ concat (map ?out ts')) = ''(''" by simp
          then have "tok = Lit (CHR ''('') \<or> paren_text tok" by (rule render_starts_paren)
          with nj cited tt have tok: "tok = Lit (CHR ''('')" by (auto simp: joins_def)
          with tt obtain cs' where rest: "rest = CHR ''('' # cs'"
            and ts': "ts' = find_links (Some (CHR ''('')) cs'"
            using find_links_hd_Lit by blast
          from a tt tok ts'
          have "match_link (CHR '']'' # CHR ''('' # concat (map ?out (find_links (Some (CHR ''('')) cs')))
                \<noteq> None"
            by simp
          then have "match_link (CHR '']'' # CHR ''('' # cs') \<noteq> None" by (rule render_url)
          then have "paren_group rest" by (simp add: paren_group_match rest)
          then have "paren_group (concat (map source ?ts))" by (simp only: source_find_links)
          with nj cited show False by (simp add: joins_def)
        qed
        have ih: "find_links (Some (CHR '']'')) ?Z = concat (map ?relit ?ts)"
          by (rule less.hyps [OF len safe]) simp
        have "find_links q (r @ CHR '']'' # ?Z)
            = map Lit (r @ '']'') @ find_links (Some (CHR '']'')) ?Z"
          using nb nz by (rule scan_inert)
        with cited ih shape show ?thesis unfolding toks by simp
      qed
    next
      case False
      let ?ts = "find_links (Some c) cs"
      let ?Z = "concat (map ?out ?ts)"
      from False Cons have toks: "find_links p s = Lit c # ?ts"
        by (cases "match_link cs") auto
      from less.prems(1) have safe: "no_joined_pieces ?ts"
        unfolding toks by (rule no_joined_pieces_tl)
      have ih: "find_links (Some c) ?Z = concat (map ?relit ?ts)"
        by (rule less.hyps [OF _ safe]) (simp_all add: Cons)
      have nm: "match_link ?Z = None" if "c = CHR ''[''" and "q \<noteq> Some (CHR ''!'')"
      proof (rule ccontr)
        assume "match_link ?Z \<noteq> None"
        with safe have "match_link cs \<noteq> None" by (rule rescan_no_match)
        with that False less.prems(2) show False by simp
      qed
      have "find_links q (c # ?Z) = Lit c # find_links (Some c) ?Z"
        using nm by auto
      with ih show ?thesis unfolding toks by simp
    qed
  qed
qed

lemma cited_urls_relit:
  "cited_urls (concat (map (\<lambda>t. if is_cited t then map Lit (fst (replace_link t S)) else [t]) toks))
   = []"
proof (induction toks)
  case Nil
  then show ?case by (simp add: cited_urls_def)
next
  case (Cons t toks)
  have a: "cited_urls (xs @ ys) = cited_urls xs @ cited_urls ys" for xs ys
    by (simp add: cited_urls_def)
  have "cited_urls (if is_cited t then map Lit (fst (replace_link t S)) else [t]) = []"
    by (cases t) (simp_all add: cited_urls_Lit, simp_all add: cited_urls_def)
  with Cons show ?case by (simp add: a)
qed

text \<open>
  C7, as the spec states it, fails: when \<^verbatim>\<open>(\<close> follows a link, the marker and that
  parenthesis form a new link. The first pass turns \<^verbatim>\<open>[a](b)(c)\<close> into \<^verbatim>\<open>a [1](c)\<close>; the
  second pass turns that into \<^verbatim>\<open>a 1 [1]\<close>, with a references block.
\<close>

theorem citations_idempotence_counterexample:
  "add_citations ''[a](b)(c)''
     = (''a [1](c)'', [CHR 0x0A] @ ''## References'' @ [CHR 0x0A, CHR 0x0A] @ ''[1] b'')
   \<and> add_citations ''a [1](c)''
     = (''a 1 [1]'', [CHR 0x0A] @ ''## References'' @ [CHR 0x0A, CHR 0x0A] @ ''[1] c'')"
  by code_simp

text \<open>
  The two other ways in which pieces join: a numbered link directly followed by a
  numbered link whose text begins with \<^verbatim>\<open>(\<close>, and a \<^verbatim>\<open>]\<close> outside a match directly
  followed by such a link. In both the second pass finds a link and numbers it.
\<close>

lemma second_pass_joined_pieces:
  "add_citations ''[a](b)[(c)](d)''
     = (''a [1](c) [2]'',
        [CHR 0x0A] @ ''## References'' @ [CHR 0x0A, CHR 0x0A] @ ''[1] b'' @ [CHR 0x0A] @ ''[2] d'')
   \<and> add_citations ''a [1](c) [2]''
     = (''a 1 [1] [2]'', [CHR 0x0A] @ ''## References'' @ [CHR 0x0A, CHR 0x0A] @ ''[1] c'')
   \<and> add_citations ''[z][(q)](u)''
     = (''[z](q) [1]'', [CHR 0x0A] @ ''## References'' @ [CHR 0x0A, CHR 0x0A] @ ''[1] u'')
   \<and> add_citations ''[z](q) [1]''
     = (''z [1] [1]'', [CHR 0x0A] @ ''## References'' @ [CHR 0x0A, CHR 0x0A] @ ''[1] q'')"
  by code_simp

text \<open>
  C7, amended: the second pass returns the text of the first pass unchanged, with an empty
  references block, for every input in whose scan no pieces join: no numbered link is
  directly followed by a parenthesised group (\<^verbatim>\<open>(\<close>, one or more characters other than
  \<^verbatim>\<open>)\<close>, and \<^verbatim>\<open>)\<close>), and no numbered link whose text begins with \<^verbatim>\<open>(\<close> directly
  follows a numbered link or a \<^verbatim>\<open>]\<close> outside a match. Nothing else is asked of the
  input: images, fragment links, brackets and parentheses elsewhere, a parenthesised
  group after a space that follows a link, and \<^verbatim>\<open>()\<close> or an unclosed \<^verbatim>\<open>(\<close> right after a
  link do not matter.
\<close>

theorem citations_second_pass:
  assumes "no_joined_pieces (find_links None x)"
  shows "add_citations (fst (add_citations x)) = (fst (add_citations x), [])"
proof -
  let ?F = "first_seen (cited_urls (find_links None x))"
  show ?thesis
  proof (cases "?F = []")
    case True
    then have "add_citations x = (x, [])" by (simp add: add_citations_spec [of x])
    then show ?thesis by simp
  next
    case False
    let ?final = "\<lparr>urls = numbered ?F, counter = length ?F\<rparr>"
    from False have y: "fst (add_citations x)
        = concat (map (\<lambda>t. fst (replace_link t ?final)) (find_links None x))"
      by (simp add: add_citations_spec [of x])
    have "cited_urls (find_links None (fst (add_citations x))) = []"
      unfolding y by (simp only: rescan [OF assms, of None] cited_urls_relit)
    then show ?thesis by (simp add: add_citations_noop_iff)
  qed
qed

lemma demo_second_pass:
  "no_joined_pieces (find_links None
     ''f(x) is [a](b) (c), ![i](p.png), [s](#h), [n] (m), [k](), [e](f)() and [g](h)('')"
  "add_citations ''f(x) is [a](b) (c), ![i](p.png), [s](#h), [n] (m), [k](), [e](f)() and [g](h)(''
   = (''f(x) is a [1] (c), ![i](p.png), [s](#h), [n] (m), [k](), e [2]() and g [3]('',
      [CHR 0x0A] @ ''## References'' @ [CHR 0x0A, CHR 0x0A] @ ''[1] b'' @ [CHR 0x0A] @ ''[2] f''
        @ [CHR 0x0A] @ ''[3] h'')"
  "no_joined_pieces (find_links None ''[A](https://a.com) [B](https://b.com) [C](https://a.com)'')"
  "fst (add_citations ''[A](https://a.com) [B](https://b.com) [C](https://a.com)'')
   = ''A [1] B [2] C [1]''"
  by code_simp+

lemma demo_joined_pieces:
  "\<not> no_joined_pieces (find_links None ''[a](b)(c)'')"
  "\<not> no_joined_pieces (find_links None ''[a](b)[(c)](d)'')"
  "\<not> no_joined_pieces (find_links None ''[z][(q)](u)'')"
  by code_simp+

text \<open>
  Two runs of C7: a text with parentheses, an image, a fragment link, brackets that are
  no link and three links, two of them directly followed by \<^verbatim>\<open>(\<close>; and the scenario of
  the numbering.
\<close>

theorem citations_second_pass_witness:
  "no_joined_pieces (find_links None
     ''f(x) is [a](b) (c), ![i](p.png), [s](#h), [n] (m), [k](), [e](f)() and [g](h)('')
   \<and> add_citations ''f(x) is [a](b) (c), ![i](p.png), [s](#h), [n] (m), [k](), [e](f)() and [g](h)(''
     = (''f(x) is a [1] (c), ![i](p.png), [s](#h), [n] (m), [k](), e [2]() and g [3]('',
        [CHR 0x0A] @ ''## References'' @ [CHR 0x0A, CHR 0x0A] @ ''[1] b'' @ [CHR 0x0A] @ ''[2] f''
          @ [CHR 0x0A] @ ''[3] h'')
   \<and> add_citations ''f(x) is a [1] (c), ![i](p.png), [s](#h), [n] (m), [k](), e [2]() and g [3](''
     = (''f(x) is a [1] (c), ![i](p.png), [s](#h), [n] (m), [k](), e [2]() and g [3]('', [])
   \<and> no_joined_pieces (find_links None ''[A](https://a.com) [B](https://b.com) [C](https://a.com)'')
   \<and> add_citations ''A [1] B [2] C [1]'' = (''A [1] B [2] C [1]'', [])"
proof -
  from citations_second_pass [OF demo_second_pass(1)]
  have a: "add_citations ''f(x) is a [1] (c), ![i](p.png), [s](#h), [n] (m), [k](), e [2]() and g [3](''
     = (''f(x) is a [1] (c), ![i](p.png), [s](#h), [n] (m), [k](), e [2]() and g [3]('', [])"
    by (simp only: demo_second_pass(2) fst_conv)
  from citations_second_pass [OF demo_second_pass(3)]
  have b: "add_citations ''A [1] B [2] C [1]'' = (''A [1] B [2] C [1]'', [])"
    by (simp only: demo_second_pass(4))
  from demo_second_pass(1) demo_second_pass(2) a demo_second_pass(3) b show ?thesis
    by (intro conjI)
qed

end
